theory Spec2Isabelle
  imports Complex_Main "HOL-Library.Multiset"
begin

section \<open>Tensors\<close>

text \<open>
  The module \<^verbatim>\<open>intent/maxact.py\<close> computes on numpy/Theano tensors. A tensor is modelled by
  its shape and by the function that reads one element (numpy's \<^verbatim>\<open>item\<close>); only the
  positions inside the shape are meaningful. Activations are floating-point numbers on
  which the module only negates, compares and takes maxima, all exact and (NaN apart) those
  of a linear order, so they are modelled as \<^typ>\<open>real\<close>. Example counters and locations are
  int64 in the source and \<^typ>\<open>int\<close> here (no run of a training loop reaches 2^63 examples).
\<close>

datatype error = ValueError | IndexError | TypeError | ZeroDivisionError

datatype 'a tensor = Tensor (shape: "nat list") (item: "nat list \<Rightarrow> 'a")

definition ndim :: "'a tensor \<Rightarrow> nat" where
  "ndim t = length (shape t)"

fun err_bind :: "error + 'a \<Rightarrow> ('a \<Rightarrow> error + 'b) \<Rightarrow> error + 'b" where
  "err_bind (Inl e) f = Inl e"
| "err_bind (Inr x) f = f x"

fun traverse :: "('a \<Rightarrow> error + 'b) \<Rightarrow> 'a list \<Rightarrow> error + 'b list" where
  "traverse f [] = Inr []"
| "traverse f (x # xs) = err_bind (f x) (\<lambda>y. err_bind (traverse f xs) (\<lambda>ys. Inr (y # ys)))"

text \<open>All positions of a shape, in row-major order.\<close>

fun positions :: "nat list \<Rightarrow> nat list list" where
  "positions [] = [[]]"
| "positions (n # ns) = concat (map (\<lambda>i. map ((#) i) (positions ns)) [0..<n])"

text \<open>Nested-list views (numpy's \<^verbatim>\<open>tolist\<close>) and literals (numpy's \<^verbatim>\<open>array\<close>).\<close>

definition column :: "'a tensor \<Rightarrow> nat \<Rightarrow> 'a list" where
  "column t u = map (\<lambda>i. item t [i, u]) [0..<shape t ! 0]"

definition tolist2 :: "'a tensor \<Rightarrow> 'a list list" where
  "tolist2 t = map (\<lambda>i. map (\<lambda>j. item t [i, j]) [0..<shape t ! 1]) [0..<shape t ! 0]"

definition tolist3 :: "'a tensor \<Rightarrow> 'a list list list" where
  "tolist3 t = map (\<lambda>i. map (\<lambda>j. map (\<lambda>k. item t [i, j, k]) [0..<shape t ! 2])
     [0..<shape t ! 1]) [0..<shape t ! 0]"

definition array2 :: "'a list list \<Rightarrow> 'a tensor" where
  "array2 xss = Tensor [length xss, (case xss of [] \<Rightarrow> 0 | r # _ \<Rightarrow> length r)]
     (\<lambda>idx. xss ! (idx ! 0) ! (idx ! 1))"

definition array3 :: "'a list list list \<Rightarrow> 'a tensor" where
  "array3 xsss = Tensor [length xsss, (case xsss of [] \<Rightarrow> 0 | r # _ \<Rightarrow> length r),
       (case xsss of (c # _) # _ \<Rightarrow> length c | _ \<Rightarrow> 0)]
     (\<lambda>idx. xsss ! (idx ! 0) ! (idx ! 1) ! (idx ! 2))"

definition array4 :: "'a list list list list \<Rightarrow> 'a tensor" where
  "array4 x = Tensor [length x, (case x of [] \<Rightarrow> 0 | r # _ \<Rightarrow> length r),
       (case x of (c # _) # _ \<Rightarrow> length c | _ \<Rightarrow> 0),
       (case x of ((d # _) # _) # _ \<Rightarrow> length d | _ \<Rightarrow> 0)]
     (\<lambda>idx. x ! (idx ! 0) ! (idx ! 1) ! (idx ! 2) ! (idx ! 3))"

subsection \<open>The numpy and Theano operations the module calls\<close>

text \<open>
  \<^verbatim>\<open>numpy.zeros(shape)\<close>. A negative dimension is a ValueError, and so is a shape that
  numpy cannot represent: a dimension beyond the largest array index \<open>maxint\<close> (the
  \<^verbatim>\<open>sys.maxsize\<close> of a 64-bit platform), or a byte count beyond it (numpy multiplies the
  item size by the dimensions other than 0). The items of the buffers of this module take
  8 bytes (\<^verbatim>\<open>numpy.int\<close> is int64 there, the snapshot is float64); with
  \<^verbatim>\<open>floatX = float32\<close> those of the quantity buffer take 4, and that buffer is allocated
  after an index buffer of at least its length, so the item size 8 decides every
  allocation of the module. A representable shape that the machine
  has no memory for (MemoryError) depends on the machine and is not modelled.
\<close>

definition maxint :: int where
  "maxint = 2 ^ 63 - 1"

definition representable :: "int list \<Rightarrow> bool" where
  "representable s \<longleftrightarrow> list_all (\<lambda>d. 0 \<le> d \<and> d \<le> maxint) s
     \<and> 8 * prod_list (filter (\<lambda>d. d \<noteq> 0) s) \<le> maxint"

definition zeros :: "int list \<Rightarrow> error + ('a::zero) tensor" where
  "zeros s = (if representable s then Inr (Tensor (map nat s) (\<lambda>_. 0)) else Inl ValueError)"

definition arange :: "nat \<Rightarrow> int tensor" where
  "arange n = Tensor [n] (\<lambda>idx. int (idx ! 0))"

definition add_scalar :: "int tensor \<Rightarrow> int \<Rightarrow> int tensor" where
  "add_scalar t c = Tensor (shape t) (\<lambda>idx. item t idx + c)"

definition neg :: "real tensor \<Rightarrow> real tensor" where
  "neg t = Tensor (shape t) (\<lambda>idx. - item t idx)"

text \<open>\<^verbatim>\<open>tensor.shape_padright(t, n_ones)\<close>: appends broadcastable axes of length 1.\<close>

definition shape_padright :: "'a tensor \<Rightarrow> nat \<Rightarrow> 'a tensor" where
  "shape_padright t n_ones =
     Tensor (shape t @ replicate n_ones 1) (\<lambda>idx. item t (take (ndim t) idx))"

text \<open>\<^verbatim>\<open>tensor.tile(x, reps)\<close> with one repetition count per axis of \<open>x\<close>.\<close>

definition tile :: "'a tensor \<Rightarrow> nat list \<Rightarrow> error + 'a tensor" where
  "tile x reps = (if length reps \<noteq> ndim x then Inl ValueError
     else Inr (Tensor (map2 (*) (shape x) reps) (\<lambda>idx. item x (map2 (mod) idx (shape x)))))"

text \<open>Row-major decomposition of a flat offset over the dimensions \<open>ns\<close>.\<close>

fun unravel :: "nat list \<Rightarrow> nat \<Rightarrow> nat list" where
  "unravel [] k = []"
| "unravel (n # ns) k = (k div prod_list ns) # unravel ns (k mod prod_list ns)"

text \<open>\<^verbatim>\<open>x.flatten(ndim=outdim)\<close>: keeps the first \<open>outdim - 1\<close> axes and rolls the others
  into one; Theano refuses an \<open>outdim\<close> outside \<open>1 .. x.ndim\<close>. It is the reshape to
  \<^verbatim>\<open>x.shape[:outdim - 1] + (-1,)\<close>, and numpy cannot infer the length \<open>-1\<close> when the axes
  kept hold no position (one of them has length 0): a ValueError.\<close>

definition flatten :: "'a tensor \<Rightarrow> nat \<Rightarrow> error + 'a tensor" where
  "flatten x outdim = (if outdim < 1 \<or> ndim x < outdim then Inl ValueError
     else if prod_list (take (outdim - 1) (shape x)) = 0 then Inl ValueError
     else Inr (Tensor (take (outdim - 1) (shape x) @ [prod_list (drop (outdim - 1) (shape x))])
       (\<lambda>idx. item x (take (outdim - 1) idx @
          unravel (drop (outdim - 1) (shape x)) (idx ! (outdim - 1))))))"

text \<open>The reduction loop of numpy's \<^verbatim>\<open>argmax\<close>: the first position of the largest value.\<close>

fun argmax_from :: "nat \<Rightarrow> real \<Rightarrow> nat \<Rightarrow> real list \<Rightarrow> nat" where
  "argmax_from bi bv i [] = bi"
| "argmax_from bi bv i (x # xs) =
     (if bv < x then argmax_from i x (Suc i) xs else argmax_from bi bv (Suc i) xs)"

fun argmax_list :: "real list \<Rightarrow> nat" where
  "argmax_list [] = 0"
| "argmax_list (x # xs) = argmax_from 0 x 1 xs"

fun max_list :: "real list \<Rightarrow> real" where
  "max_list [] = 0"
| "max_list (x # xs) = fold max xs x"

text \<open>The elements of \<open>x\<close> along \<open>axis\<close> at the position \<open>idx\<close> of the other axes.\<close>

definition lane :: "'a tensor \<Rightarrow> nat \<Rightarrow> nat list \<Rightarrow> 'a list" where
  "lane x axis idx = map (\<lambda>k. item x (take axis idx @ [k] @ drop axis idx)) [0..<shape x ! axis]"

definition drop_axis :: "nat \<Rightarrow> 'a list \<Rightarrow> 'a list" where
  "drop_axis axis s = take axis s @ drop (Suc axis) s"

text \<open>\<^verbatim>\<open>x.argmax(axis)\<close> and \<^verbatim>\<open>x.max(axis)\<close>: an empty axis is a ValueError
  ("attempt to get argmax of an empty sequence").\<close>

definition argmax :: "real tensor \<Rightarrow> nat \<Rightarrow> error + int tensor" where
  "argmax x axis = (if ndim x \<le> axis then Inl ValueError
     else if shape x ! axis = 0 then Inl ValueError
     else Inr (Tensor (drop_axis axis (shape x)) (\<lambda>idx. int (argmax_list (lane x axis idx)))))"

definition tmax_axis :: "real tensor \<Rightarrow> nat \<Rightarrow> error + real tensor" where
  "tmax_axis x axis = (if ndim x \<le> axis then Inl ValueError
     else if shape x ! axis = 0 then Inl ValueError
     else Inr (Tensor (drop_axis axis (shape x)) (\<lambda>idx. max_list (lane x axis idx))))"

text \<open>Python's \<^verbatim>\<open>divmod(t, d)\<close> on an integer tensor: floor division and modulus, elementwise.\<close>

definition divmod_scalar :: "int tensor \<Rightarrow> int \<Rightarrow> error + int tensor \<times> int tensor" where
  "divmod_scalar t d = (if d = 0 then Inl ZeroDivisionError
     else Inr (Tensor (shape t) (\<lambda>idx. item t idx div d), Tensor (shape t) (\<lambda>idx. item t idx mod d)))"

text \<open>\<^verbatim>\<open>tensor.stack(ts, axis)\<close>: the tensors, all of one shape, along a new axis.\<close>

definition stack :: "'a tensor list \<Rightarrow> nat \<Rightarrow> error + 'a tensor" where
  "stack ts axis = (case ts of [] \<Rightarrow> Inl ValueError
     | t # _ \<Rightarrow> if list_all (\<lambda>t'. shape t' = shape t) ts \<and> axis \<le> ndim t
         then Inr (Tensor (take axis (shape t) @ [length ts] @ drop axis (shape t))
                (\<lambda>idx. item (ts ! (idx ! axis)) (drop_axis axis idx)))
         else Inl TypeError)"

text \<open>\<^verbatim>\<open>tensor.concatenate((a, b), axis=0)\<close>: the ranks and the other dimensions agree.\<close>

definition concatenate :: "'a tensor \<Rightarrow> 'a tensor \<Rightarrow> error + 'a tensor" where
  "concatenate a b = (case (shape a, shape b) of
       (n # sa, m # sb) \<Rightarrow>
         if sa = sb then Inr (Tensor ((n + m) # sa)
             (\<lambda>idx. if idx ! 0 < n then item a idx else item b ((idx ! 0 - n) # tl idx)))
         else Inl ValueError
     | _ \<Rightarrow> Inl TypeError)"

text \<open>
  \<^verbatim>\<open>x.argsort(axis=0)\<close> sorts every lane along axis 0 with a one-dimensional sort, the
  parameter \<open>argsort\<close> of the model. What numpy documents of that sort is \<open>argsort_ok\<close>: a
  permutation of the positions that lists the values in ascending order; stability is no
  part of that contract. The sort that runs is \<open>numpy_argsort\<close> below.
\<close>

definition argsort_ok :: "(real list \<Rightarrow> nat list) \<Rightarrow> bool" where
  "argsort_ok argsort \<longleftrightarrow>
     (\<forall>xs. mset (argsort xs) = mset [0..<length xs] \<and> sorted (map ((!) xs) (argsort xs)))"


definition argsort0 :: "(real list \<Rightarrow> nat list) \<Rightarrow> real tensor \<Rightarrow> error + int tensor" where
  "argsort0 argsort x = (case shape x of [] \<Rightarrow> Inl ValueError
     | n # s \<Rightarrow> Inr (Tensor (n # s)
         (\<lambda>idx. int (argsort (lane x 0 (tl idx)) ! (idx ! 0)))))"

text \<open>The stable sort of the positions: equal values stay in ascending order of position.\<close>

definition stable_argsort :: "real list \<Rightarrow> nat list" where
  "stable_argsort xs = sort_key ((!) xs) [0..<length xs]"

text \<open>
  Theano's default is numpy's \<^verbatim>\<open>kind='quicksort'\<close>, the function \<^verbatim>\<open>aquicksort\<close> of
  \<^verbatim>\<open>npysort/quicksort.c.src\<close>, outside this repository. It sorts an array \<open>a\<close> of positions,
  first \<open>0, 1, ..\<close>, by the values \<open>v\<close> they point to. A segment of more than 17 positions
  (\<^verbatim>\<open>pr - pl > SMALL_QUICKSORT\<close>, which is 16) is partitioned around the median of its first,
  middle and last values; a shorter one is sorted by insertion. The two parts of a
  partition are sorted independently of each other, so the explicit stack of the C code is
  a recursion here. The bound tests of \<open>scan_up\<close> and \<open>scan_down\<close> are not in the C code, where
  the pivot parked at \<open>pr - 1\<close> and the value at \<open>pl\<close> stop the two scans. Later versions of
  numpy give a segment up to heapsort after \<open>2 * floor (log2 n)\<close> nested partitions, which
  takes a lane of at least 38 values; that step is not modelled.
\<close>

text \<open>\<^verbatim>\<open>INTP_SWAP(a[i], a[j])\<close>\<close>

definition swap :: "nat \<Rightarrow> nat \<Rightarrow> 'a list \<Rightarrow> 'a list" where
  "swap i j a = a[i := a ! j, j := a ! i]"

text \<open>\<^verbatim>\<open>if (LT(v[a[i]], v[a[j]])) INTP_SWAP(a[i], a[j])\<close>\<close>

definition cswap :: "(nat \<Rightarrow> real) \<Rightarrow> nat \<Rightarrow> nat \<Rightarrow> nat list \<Rightarrow> nat list" where
  "cswap v i j a = (if v (a ! i) < v (a ! j) then swap i j a else a)"

text \<open>\<^verbatim>\<open>do ++pi; while (LT(v[*pi], vp));\<close>\<close>

function scan_up :: "(nat \<Rightarrow> real) \<Rightarrow> real \<Rightarrow> nat list \<Rightarrow> nat \<Rightarrow> nat" where
  "scan_up v vp a i =
     (if Suc i < length a \<and> v (a ! Suc i) < vp then scan_up v vp a (Suc i) else Suc i)"
  by pat_completeness auto
termination
  by (relation "measure (\<lambda>(v, vp, a, i). length a - i)") auto

declare scan_up.simps [simp del]

text \<open>\<^verbatim>\<open>do --pj; while (LT(vp, v[*pj]));\<close>\<close>

function scan_down :: "(nat \<Rightarrow> real) \<Rightarrow> real \<Rightarrow> nat list \<Rightarrow> nat \<Rightarrow> nat" where
  "scan_down v vp a j =
     (if 0 < j - 1 \<and> vp < v (a ! (j - 1)) then scan_down v vp a (j - 1) else j - 1)"
  by pat_completeness auto
termination
  by (relation "measure (\<lambda>(v, vp, a, j). j)") auto

declare scan_down.simps [simp del]

text \<open>The loop \<^verbatim>\<open>for (;;)\<close> of the partition: both scans, then a swap unless they have met.\<close>

function part_loop ::
  "(nat \<Rightarrow> real) \<Rightarrow> real \<Rightarrow> nat list \<Rightarrow> nat \<Rightarrow> nat \<Rightarrow> nat list \<times> nat" where
  "part_loop v vp a i j = (let i' = scan_up v vp a i; j' = scan_down v vp a j in
      if j' \<le> i' then (a, i') else part_loop v vp (swap i' j' a) i' j')"
  by pat_completeness auto
termination
proof (relation "measure (\<lambda>(v, vp, a, i, j). j - i)")
  show "wf (measure (\<lambda>(v, vp, a, i, j). j - i))" by simp
next
  fix v :: "nat \<Rightarrow> real" and vp a i j x xa
  assume x: "x = scan_up v vp a i" and xa: "xa = scan_down v vp a j" and n: "\<not> xa \<le> x"
  have up: "i < scan_up v vp a i"
    by (induction v vp a i rule: scan_up.induct) (subst scan_up.simps, auto)
  have down: "scan_down v vp a j \<le> j - 1"
    by (induction v vp a j rule: scan_down.induct) (subst scan_down.simps, auto)
  from up down x xa n
  show "((v, vp, swap x xa a, x, xa), (v, vp, a, i, j)) \<in> measure (\<lambda>(v, vp, a, i, j). j - i)"
    by auto
qed

declare part_loop.simps [simp del]

text \<open>The partition of the segment \<open>a\<close> (\<open>pl\<close> is position 0 and \<open>pr\<close> the last one): the
  positions after the step and the place \<open>pi\<close> of the pivot.\<close>

definition qs_partition :: "(nat \<Rightarrow> real) \<Rightarrow> nat list \<Rightarrow> nat list \<times> nat" where
  "qs_partition v a = (let r = length a - 1; m = r div 2;
      a = cswap v m 0 a;
      a = cswap v r m a;
      a = cswap v m 0 a;
      vp = v (a ! m);
      (a, i) = part_loop v vp (swap m (r - 1) a) 0 (r - 1)
    in (swap i (r - 1) a, i))"

text \<open>The insertion sort of a short segment. \<open>shift_in\<close> is the inner loop: the sorted prefix
  is read from its right end, and every position of a greater value moves up by one.\<close>

fun shift_in :: "(nat \<Rightarrow> real) \<Rightarrow> nat \<Rightarrow> nat list \<Rightarrow> nat list" where
  "shift_in v vi [] = [vi]"
| "shift_in v vi (k # ks) = (if v vi < v k then k # shift_in v vi ks else vi # k # ks)"

definition insertion_sort :: "(nat \<Rightarrow> real) \<Rightarrow> nat list \<Rightarrow> nat list" where
  "insertion_sort v a = rev (fold (shift_in v) a [])"

function qsort :: "(nat \<Rightarrow> real) \<Rightarrow> nat list \<Rightarrow> nat list" where
  "qsort v a = (if 16 < length a - 1
     then (case qs_partition v a of
             (a', i) \<Rightarrow> qsort v (take i a') @ [a' ! i] @ qsort v (drop (Suc i) a'))
     else insertion_sort v a)"
  by pat_completeness auto
termination
proof -
  have up: "scan_up v vp a i \<le> s" if "i < s" "s < length a" "\<not> v (a ! s) < vp"
    for v vp a i s
    using that
  proof (induction v vp a i rule: scan_up.induct)
    case (1 v vp a i)
    show ?case
    proof (cases "Suc i < length a \<and> v (a ! Suc i) < vp")
      case True
      with "1.prems" have "Suc i \<noteq> s" by auto
      with "1.prems" have "Suc i < s" by simp
      from "1.IH"[OF True this "1.prems"(2,3)] True show ?thesis
        by (subst scan_up.simps) simp
    next
      case False
      with "1.prems" show ?thesis by (subst scan_up.simps) auto
    qed
  qed
  have down: "scan_down v vp a j \<le> j - 1" for v vp a j
    by (induction v vp a j rule: scan_down.induct) (subst scan_down.simps, auto)
  have gt: "i < scan_up v vp a i" for v vp a i
    by (induction v vp a i rule: scan_up.induct) (subst scan_up.simps, auto)
  have loop: "length (fst (part_loop v vp a i j)) = length a \<and> snd (part_loop v vp a i j) \<le> s"
    if "i < s" "j \<le> s" "s < length a" "\<not> v (a ! s) < vp" for v vp a i j s
    using that
  proof (induction v vp a i j rule: part_loop.induct)
    case (1 v vp a i j)
    let ?i = "scan_up v vp a i" and ?j = "scan_down v vp a j"
    show ?case
    proof (cases "?j \<le> ?i")
      case True
      then have "part_loop v vp a i j = (a, ?i)"
        by (subst part_loop.simps) (simp add: Let_def)
      then show ?thesis using up[of i s a v vp] "1.prems" by simp
    next
      case False
      have eq: "part_loop v vp a i j = part_loop v vp (swap ?i ?j a) ?i ?j"
        using False by (subst part_loop.simps) (simp add: Let_def)
      have lt: "?i < ?j" "?j < s" using False down[of v vp a j] gt[of i v vp a] "1.prems" by auto
      have "length (fst (part_loop v vp (swap ?i ?j a) ?i ?j)) = length (swap ?i ?j a)
            \<and> snd (part_loop v vp (swap ?i ?j a) ?i ?j) \<le> s"
        using lt "1.prems" by (intro "1.IH"[OF refl refl False]) (auto simp: swap_def)
      then show ?thesis by (simp add: eq swap_def)
    qed
  qed
  have part: "length (fst (qs_partition v a)) = length a \<and> snd (qs_partition v a) < length a"
    if "16 < length a - 1" for v a
  proof -
    define r where "r = length a - 1"
    define m where "m = r div 2"
    define a3 where "a3 = cswap v m 0 (cswap v r m (cswap v m 0 a))"
    define a4 where "a4 = swap m (r - 1) a3"
    have len3: "length a3 = length a" by (simp add: a3_def cswap_def swap_def)
    have len: "length a4 = length a" by (simp add: a4_def len3 swap_def)
    have r: "16 < r" "r < length a" using that by (auto simp: r_def)
    have piv: "a4 ! (r - 1) = a3 ! m"
      using r len3 by (simp add: a4_def swap_def)
    have res: "qs_partition v a = (swap (snd (part_loop v (v (a3 ! m)) a4 0 (r - 1))) (r - 1)
        (fst (part_loop v (v (a3 ! m)) a4 0 (r - 1))), snd (part_loop v (v (a3 ! m)) a4 0 (r - 1)))"
      unfolding qs_partition_def Let_def r_def m_def a3_def a4_def
      by (simp add: case_prod_beta)
    have "length (fst (part_loop v (v (a3 ! m)) a4 0 (r - 1))) = length a4
          \<and> snd (part_loop v (v (a3 ! m)) a4 0 (r - 1)) \<le> r - 1"
      using r len piv by (intro loop) auto
    then show ?thesis using r len by (auto simp add: res swap_def)
  qed
  show ?thesis
    apply (relation "measure (\<lambda>(v, a). length a)")
      apply simp
    subgoal for v a using part[of a v] by (cases "qs_partition v a") auto
    subgoal for v a using part[of a v] by (cases "qs_partition v a") auto
    done
qed

declare qsort.simps [simp del]

definition numpy_argsort :: "real list \<Rightarrow> nat list" where
  "numpy_argsort xs = qsort ((!) xs) [0..<length xs]"

text \<open>Python's slice \<^verbatim>\<open>x[:stop]\<close> along axis 0.\<close>

definition slice_stop :: "nat \<Rightarrow> int \<Rightarrow> nat" where
  "slice_stop n stop = (if stop < 0 then nat (max 0 (int n + stop)) else min n (nat stop))"

definition take_rows :: "'a tensor \<Rightarrow> int \<Rightarrow> error + 'a tensor" where
  "take_rows x stop = (case shape x of [] \<Rightarrow> Inl IndexError
     | n # s \<Rightarrow> Inr (Tensor (slice_stop n stop # s) (item x)))"

text \<open>
  numpy's advanced indexing \<^verbatim>\<open>data[(i_0, ..., i_{n-1})]\<close> with one integer index array per
  axis of \<open>data\<close> (the only form the module uses): the index arrays are broadcast to a common
  shape, aligned at their last axes, where an axis of length 1 is repeated; the result has
  that shape and holds \<open>data[i_0[p], ..., i_{n-1}[p]]\<close> at position \<open>p\<close>. Shapes that do not
  broadcast and indices outside \<open>[-len, len)\<close> are IndexErrors; a negative index counts from
  the end.
\<close>

fun broadcast_rev :: "nat list \<Rightarrow> nat list \<Rightarrow> nat list option" where
  "broadcast_rev [] ys = Some ys"
| "broadcast_rev (x # xs) [] = Some (x # xs)"
| "broadcast_rev (x # xs) (y # ys) =
     (if y = 1 \<or> x = y then map_option ((#) x) (broadcast_rev xs ys)
      else if x = 1 then map_option ((#) y) (broadcast_rev xs ys)
      else None)"

definition broadcast2 :: "nat list \<Rightarrow> nat list \<Rightarrow> nat list option" where
  "broadcast2 a b = map_option rev (broadcast_rev (rev a) (rev b))"

fun broadcast_shapes :: "nat list list \<Rightarrow> nat list option" where
  "broadcast_shapes [] = Some []"
| "broadcast_shapes [s] = Some s"
| "broadcast_shapes (s # ss) =
     (case broadcast_shapes ss of None \<Rightarrow> None | Some r \<Rightarrow> broadcast2 s r)"

definition bc_pos :: "nat list \<Rightarrow> nat list \<Rightarrow> nat list" where
  "bc_pos s pos = map2 (\<lambda>n i. if n = 1 then 0 else i) s (drop (length pos - length s) pos)"

definition bc_item :: "'a tensor \<Rightarrow> nat list \<Rightarrow> 'a" where
  "bc_item t pos = item t (bc_pos (shape t) pos)"

definition index_ok :: "nat \<Rightarrow> int \<Rightarrow> bool" where
  "index_ok n i \<longleftrightarrow> - int n \<le> i \<and> i < int n"

definition norm_index :: "nat \<Rightarrow> int \<Rightarrow> nat" where
  "norm_index n i = (if i < 0 then nat (int n + i) else nat i)"

definition adv_index :: "'a tensor \<Rightarrow> int tensor list \<Rightarrow> error + 'a tensor" where
  "adv_index data idxs =
     (if length idxs \<noteq> ndim data then Inl IndexError
      else case broadcast_shapes (map shape idxs) of
        None \<Rightarrow> Inl IndexError
      | Some s \<Rightarrow>
          if list_all (\<lambda>pos. list_all2 (\<lambda>t n. index_ok n (bc_item t pos)) idxs (shape data))
               (positions s)
          then Inr (Tensor s
                 (\<lambda>pos. item data (map2 (\<lambda>t n. norm_index n (bc_item t pos)) idxs (shape data))))
          else Inl IndexError)"

section \<open>Indexed permutation utilities\<close>

text \<open>
  \<^verbatim>\<open>_axis_count(shape, axis, ndim)\<close>: \<^verbatim>\<open>arange(shape[axis])\<close> laid along axis \<open>axis\<close> of an
  \<open>ndim\<close>-dimensional tensor whose other axes are broadcastable. With \<open>axis\<close> beyond \<open>ndim\<close>
  the dimshuffle pattern would drop the only axis of the range, which Theano refuses.
\<close>

definition axis_count :: "nat list \<Rightarrow> nat \<Rightarrow> nat \<Rightarrow> error + int tensor" where
  "axis_count shp axis nd =
     (if length shp \<le> axis then Inl IndexError
      else if nd \<le> axis then Inl ValueError
      else Inr (Tensor ((replicate nd 1)[axis := shp ! axis]) (\<lambda>idx. int (idx ! axis))))"

text \<open>\<^verbatim>\<open>_apply_perm(data, indices, axis)\<close>\<close>

definition apply_perm :: "'a tensor \<Rightarrow> int tensor \<Rightarrow> nat \<Rightarrow> error + 'a tensor" where
  "apply_perm data indices axis =
     (let nd = ndim data;
          shp = shape data;
          indices' = (if ndim indices < nd then shape_padright indices (nd - ndim indices)
                      else indices)
      in err_bind
           (traverse (\<lambda>a. if a = axis then Inr indices' else axis_count shp a nd) [0..<nd])
           (adv_index data))"

text \<open>\<^verbatim>\<open>_apply_index(data, indices, axis)\<close>. For an axis \<open>a\<close> after \<open>axis\<close> the source
  counts \<^verbatim>\<open>shape[a - 1]\<close>, and so does the model.\<close>

definition apply_index :: "'a tensor \<Rightarrow> int tensor \<Rightarrow> nat \<Rightarrow> error + 'a tensor" where
  "apply_index data indices axis =
     (let nd = ndim data;
          shp = shape data;
          indices' = (if ndim indices < nd - 1
                      then shape_padright indices (nd - ndim indices - 1) else indices)
      in err_bind
           (traverse (\<lambda>a. if a = axis then Inr indices'
                          else if a < axis then axis_count shp a (nd - 1)
                          else axis_count shp (a - 1) (nd - 1)) [0..<nd])
           (adv_index data))"

section \<open>Per-output statistics record\<close>

text \<open>
  How a caller gives the dimensions of an output: one integer (a dense output with that many
  units) or a tuple (a spatial output: units, height, width). When the caller gives none,
  the source asks the brick that produced the output; that lookup belongs to the framework
  and is the parameter \<open>get_dims\<close>.
\<close>

datatype dims_arg = Integral int | DimsTuple "int list"

text \<open>The tuple \<^verbatim>\<open>(dims, quantity, index, snapshot)\<close> that
  \<^verbatim>\<open>_create_maximum_activation_for\<close> returns.\<close>

record maxact_record =
  dims :: "int list"
  quantity :: "real tensor"
  index :: "int tensor"
  snapshot :: "real tensor option"

definition create_maximum_activation_for ::
  "('o \<Rightarrow> dims_arg) \<Rightarrow> 'o \<Rightarrow> int \<Rightarrow> dims_arg option \<Rightarrow> error + maxact_record" where
  "create_maximum_activation_for get_dims output topn dims0 =
     (case (case dims0 of None \<Rightarrow> get_dims output | Some d \<Rightarrow> d) of
        Integral n \<Rightarrow>
          err_bind (zeros [topn, n]) (\<lambda>ix.
          err_bind (zeros [topn, n]) (\<lambda>q.
            Inr \<lparr>dims = [n], quantity = q, index = ix, snapshot = None\<rparr>))
      | DimsTuple ds \<Rightarrow>
          (case ds of
             [] \<Rightarrow> Inl IndexError
           | d0 # _ \<Rightarrow>
               err_bind (zeros [topn, d0, 3]) (\<lambda>ix.
               err_bind (zeros (topn # ds)) (\<lambda>snap.
               err_bind (zeros [topn, d0]) (\<lambda>q.
                 Inr \<lparr>dims = ds, quantity = q, index = ix, snapshot = Some snap\<rparr>)))))"

section \<open>Streaming top-N update rule\<close>

text \<open>The new values that \<^verbatim>\<open>_create_maximum_activation_update\<close> pairs with the buffers
  \<open>maximums\<close>, \<open>indices\<close> and, when the record has one, \<open>snapshot\<close>.\<close>

record updates =
  newmax :: "real tensor"
  newind :: "int tensor"
  newsnap :: "real tensor option"

text \<open>\<^verbatim>\<open>counters\<close>: the absolute stream position of every example, repeated for every unit.\<close>

definition counters :: "real tensor \<Rightarrow> int \<Rightarrow> error + int tensor" where
  "counters output streamindex =
     (if ndim output < 2 then Inl IndexError
      else tile (shape_padright (add_scalar (arange (shape output ! 0)) streamindex) 1)
             [1, shape output ! 1])"

text \<open>\<^verbatim>\<open>(tmax, tind)\<close>: the candidates of the batch and their coordinates, for a dense
  output (the first branch) and for a spatial one.\<close>

definition candidates ::
  "real tensor \<Rightarrow> int list \<Rightarrow> int tensor \<Rightarrow> error + real tensor \<times> int tensor" where
  "candidates output ds cnt =
     (if length ds = 1 then Inr (output, cnt)
      else
        err_bind (flatten output 3) (\<lambda>fmax.
        err_bind (argmax fmax 2) (\<lambda>fargmax.
        err_bind (apply_index fmax fargmax 2) (\<lambda>tmax.
        if length ds < 3 then Inl IndexError
        else
          err_bind (divmod_scalar fargmax (ds ! 2)) (\<lambda>targmax.
          err_bind (stack [cnt, fst targmax, snd targmax] 2) (\<lambda>tind.
            Inr (tmax, tind)))))))"

text \<open>\<^verbatim>\<open>cargsort = (-cmax).argsort(axis=0)[:topn]\<close>\<close>

definition cargsort ::
  "(real list \<Rightarrow> nat list) \<Rightarrow> real tensor \<Rightarrow> int \<Rightarrow> error + int tensor" where
  "cargsort argsort cmax topn = err_bind (argsort0 argsort (neg cmax)) (\<lambda>p. take_rows p topn)"

text \<open>\<^verbatim>\<open>_create_maximum_activation_update(output, record, streamindex, topn)\<close>. The source
  builds a symbolic expression once and Theano evaluates it on every batch; the model
  evaluates the same operations on the value \<open>output\<close> of the batch, and an error of either
  stage is an error of the update. A shared variable is true in \<^verbatim>\<open>if snapshot:\<close>, and
  \<^verbatim>\<open>None\<close> is false.\<close>

definition create_maximum_activation_update ::
  "(real list \<Rightarrow> nat list) \<Rightarrow> real tensor \<Rightarrow> maxact_record \<Rightarrow> int \<Rightarrow> int \<Rightarrow> error + updates" where
  "create_maximum_activation_update argsort output rec streamindex topn =
     err_bind (counters output streamindex) (\<lambda>cnt.
     err_bind (candidates output (dims rec) cnt) (\<lambda>cand.
     err_bind (concatenate (quantity rec) (fst cand)) (\<lambda>cmax.
     err_bind (concatenate (index rec) (snd cand)) (\<lambda>cind.
     err_bind (cargsort argsort cmax topn) (\<lambda>cs.
     err_bind (apply_perm cmax cs 0) (\<lambda>nm.
     err_bind (apply_perm cind cs 0) (\<lambda>ni.
       case snapshot rec of
         None \<Rightarrow> Inr \<lparr>newmax = nm, newind = ni, newsnap = None\<rparr>
       | Some snap \<Rightarrow>
           err_bind (concatenate snap output) (\<lambda>csnap.
           err_bind (apply_perm csnap cs 0) (\<lambda>ns.
             Inr \<lparr>newmax = nm, newind = ni, newsnap = Some ns\<rparr>)))))))))"

section \<open>Maximum-activation search controller\<close>

text \<open>An update \<^verbatim>\<open>(buffer, new value)\<close> replaces the buffer's value when the step runs.\<close>

definition apply_updates :: "maxact_record \<Rightarrow> updates \<Rightarrow> maxact_record" where
  "apply_updates rec u = rec\<lparr>quantity := newmax u, index := newind u,
     snapshot := (case newsnap u of None \<Rightarrow> snapshot rec | Some ns \<Rightarrow> Some ns)\<rparr>"

text \<open>\<^verbatim>\<open>OrderedDict(pairs)\<close>: a key given twice keeps its first place and its last value.\<close>

fun od_set :: "('k \<times> 'v) list \<Rightarrow> 'k \<Rightarrow> 'v \<Rightarrow> ('k \<times> 'v) list" where
  "od_set [] k v = [(k, v)]"
| "od_set ((k', v') # kvs) k v = (if k' = k then (k, v) # kvs else (k', v') # od_set kvs k v)"

definition ordered_dict :: "('k \<times> 'v) list \<Rightarrow> ('k \<times> 'v) list" where
  "ordered_dict kvs = fold (\<lambda>kv d. od_set d (fst kv) (snd kv)) kvs []"

record 'o MaximumActivationSearch =
  outputs :: "'o list"
  topn :: int
  streamindex :: int
  maximum_activations :: "('o \<times> maxact_record) list"

text \<open>\<^verbatim>\<open>MaximumActivationSearch.__init__(outputs, dims, topn)\<close>: one record per output, the
  stream position at zero; \<^verbatim>\<open>self.outputs[0]\<close> needs a first output. The update
  expressions it registers are evaluated by \<open>process_batch\<close>.\<close>

definition MaximumActivationSearch_init ::
  "('o \<Rightarrow> dims_arg) \<Rightarrow> 'o list \<Rightarrow> ('o \<Rightarrow> dims_arg option) \<Rightarrow> int
     \<Rightarrow> error + 'o MaximumActivationSearch" where
  "MaximumActivationSearch_init get_dims outs ds n =
     err_bind
       (traverse (\<lambda>o'. err_bind (create_maximum_activation_for get_dims o' n (ds o'))
                         (\<lambda>r. Inr (o', r))) outs)
       (\<lambda>pairs. case outs of
            [] \<Rightarrow> Inl IndexError
          | _ # _ \<Rightarrow> Inr \<lparr>outputs = outs, topn = n, streamindex = 0,
                        maximum_activations = ordered_dict pairs\<rparr>)"

text \<open>
  One training step. The step engine of the framework evaluates every registered update on
  the values of the state before the step and on the batch (\<open>batch o'\<close> is the value of the
  output \<open>o'\<close>), then replaces all buffers at once; an error in any update leaves no new
  state. The last update advances the stream position by the batch size of the first
  output.
\<close>

definition process_batch ::
  "(real list \<Rightarrow> nat list) \<Rightarrow> ('o \<Rightarrow> real tensor) \<Rightarrow> 'o MaximumActivationSearch
     \<Rightarrow> error + 'o MaximumActivationSearch" where
  "process_batch argsort batch s =
     err_bind
       (traverse (\<lambda>kv. err_bind
            (create_maximum_activation_update argsort (batch (fst kv)) (snd kv)
               (streamindex s) (topn s))
            (\<lambda>u. Inr (fst kv, apply_updates (snd kv) u)))
          (maximum_activations s))
       (\<lambda>recs. case outputs s of
            [] \<Rightarrow> Inl IndexError
          | o' # _ \<Rightarrow>
              (case shape (batch o') of
                 [] \<Rightarrow> Inl IndexError
               | b # _ \<Rightarrow> Inr (s\<lparr>maximum_activations := recs,
                                 streamindex := streamindex s + int b\<rparr>)))"

fun process_batches ::
  "(real list \<Rightarrow> nat list) \<Rightarrow> ('o \<Rightarrow> real tensor) list \<Rightarrow> 'o MaximumActivationSearch
     \<Rightarrow> error + 'o MaximumActivationSearch" where
  "process_batches argsort [] s = Inr s"
| "process_batches argsort (b # bs) s =
     err_bind (process_batch argsort b s) (process_batches argsort bs)"

text \<open>The ranking of one unit: the first \<open>n\<close> positions of the ascending sort of the
  negated candidates \<open>cvals\<close>, which is what a lane of \<open>cargsort\<close> holds.\<close>

definition ranking :: "(real list \<Rightarrow> nat list) \<Rightarrow> nat \<Rightarrow> real list \<Rightarrow> nat list" where
  "ranking argsort n cvals = take n (argsort (map uminus cvals))"

text \<open>The shapes of a record with \<open>n\<close> slots for a dense output of \<open>u\<close> units, and for a
  spatial output of \<open>u\<close> units with feature maps of \<open>h\<close> rows and \<open>w\<close> columns, as
  \<open>create_maximum_activation_for\<close> allocates them. The values are arbitrary.\<close>

definition dense_record :: "maxact_record \<Rightarrow> nat \<Rightarrow> nat \<Rightarrow> bool" where
  "dense_record rec n u \<longleftrightarrow> length (dims rec) = 1 \<and> shape (quantity rec) = [n, u] \<and>
     shape (index rec) = [n, u] \<and> snapshot rec = None"

definition spatial_record :: "maxact_record \<Rightarrow> nat \<Rightarrow> nat \<Rightarrow> nat \<Rightarrow> nat \<Rightarrow> bool" where
  "spatial_record rec n u h w \<longleftrightarrow> dims rec = [int u, int h, int w] \<and>
     shape (quantity rec) = [n, u] \<and> shape (index rec) = [n, u, 3] \<and>
     (case snapshot rec of None \<Rightarrow> False | Some s \<Rightarrow> shape s = [n, u, h, w])"

text \<open>The feature map of example \<open>i\<close> and unit \<open>j\<close> of a 4D batch, flattened row by row,
  the column \<open>[:, u, k]\<close> of a 3D tensor, and the coordinate (component \<open>k\<close> of example
  position, row, column) that the update computes for example \<open>i\<close> and unit \<open>j\<close> of a
  spatial batch.\<close>

definition feature_map :: "real tensor \<Rightarrow> nat \<Rightarrow> nat \<Rightarrow> real list" where
  "feature_map output i j =
     map (\<lambda>k. item output [i, j, k div shape output ! 3, k mod shape output ! 3])
       [0..<shape output ! 2 * shape output ! 3]"

definition column3 :: "'a tensor \<Rightarrow> nat \<Rightarrow> nat \<Rightarrow> 'a list" where
  "column3 t u k = map (\<lambda>i. item t [i, u, k]) [0..<shape t ! 0]"

definition location :: "real tensor \<Rightarrow> int \<Rightarrow> nat \<Rightarrow> nat \<Rightarrow> nat \<Rightarrow> int" where
  "location output si j k i =
     (if k = 0 then int i + si
      else if k = 1 then int (argmax_list (feature_map output i j)) div int (shape output ! 3)
      else int (argmax_list (feature_map output i j)) mod int (shape output ! 3))"




subsection \<open>Reading the statistics back\<close>

text \<open>
  What it means to re-fetch a recorded slot from the batches seen so far. A history is the
  list of the batches of one output, each with the stream position at which it started. A
  dense slot with quantity \<open>q\<close> and example coordinate \<open>e\<close> has a source when some batch
  holds, at the offset \<open>e - start\<close>, the activation \<open>q\<close> of the unit; a spatial slot with
  the coordinate \<open>(e, row, col)\<close> has a source when the feature map of that example and unit
  holds \<open>q\<close> at \<open>(row, col)\<close>, inside the map, and \<open>q\<close> is the maximum of the map.
\<close>

definition dense_source :: "(int \<times> real tensor) list \<Rightarrow> nat \<Rightarrow> real \<Rightarrow> int \<Rightarrow> bool" where
  "dense_source hist u q e \<longleftrightarrow>
     list_ex (\<lambda>sb. list_ex (\<lambda>i. e = fst sb + int i \<and> q = item (snd sb) [i, u])
                [0..<shape (snd sb) ! 0]) hist"

definition spatial_source ::
  "(int \<times> real tensor) list \<Rightarrow> nat \<Rightarrow> real \<Rightarrow> int \<Rightarrow> int \<Rightarrow> int \<Rightarrow> bool" where
  "spatial_source hist u q e row col \<longleftrightarrow>
     list_ex (\<lambda>sb. list_ex (\<lambda>i. e = fst sb + int i \<and>
                  0 \<le> row \<and> row < int (shape (snd sb) ! 2) \<and>
                  0 \<le> col \<and> col < int (shape (snd sb) ! 3) \<and>
                  q = item (snd sb) [i, u, nat row, nat col] \<and>
                  q = max_list (feature_map (snd sb) i u))
                [0..<shape (snd sb) ! 0]) hist"

text \<open>A slot is traceable when it is a zero entry of the initial record that no activation
  has displaced (quantity 0 at the coordinate 0), or has a source in the history.\<close>

definition slot_traceable :: "(int \<times> real tensor) list \<Rightarrow> maxact_record \<Rightarrow> nat \<Rightarrow> nat \<Rightarrow> bool" where
  "slot_traceable hist rec i u \<longleftrightarrow>
     (case snapshot rec of
        None \<Rightarrow>
          item (quantity rec) [i, u] = 0 \<and> item (index rec) [i, u] = 0 \<or>
          dense_source hist u (item (quantity rec) [i, u]) (item (index rec) [i, u])
      | Some _ \<Rightarrow>
          item (quantity rec) [i, u] = 0 \<and> item (index rec) [i, u, 0] = 0 \<and>
            item (index rec) [i, u, 1] = 0 \<and> item (index rec) [i, u, 2] = 0 \<or>
          spatial_source hist u (item (quantity rec) [i, u]) (item (index rec) [i, u, 0])
            (item (index rec) [i, u, 1]) (item (index rec) [i, u, 2]))"

text \<open>The example coordinate of a slot: the index itself for a dense record, its first
  component for a spatial one.\<close>

definition example_coordinate :: "maxact_record \<Rightarrow> nat \<Rightarrow> nat \<Rightarrow> int" where
  "example_coordinate rec i u =
     (case snapshot rec of None \<Rightarrow> item (index rec) [i, u] | Some _ \<Rightarrow> item (index rec) [i, u, 0])"

text \<open>The dimensions the module is written for: one integer, or units, height and width.\<close>

definition dense_or_spatial_dims :: "dims_arg \<Rightarrow> bool" where
  "dense_or_spatial_dims d = (case d of Integral _ \<Rightarrow> True | DimsTuple t \<Rightarrow> length t = 3)"

text \<open>The batches of the output \<open>o'\<close> in a run of the controller that starts at the stream
  position \<open>si\<close>; the position advances by the batch size of the first output \<open>o1\<close>.\<close>

fun history :: "'o \<Rightarrow> 'o \<Rightarrow> int \<Rightarrow> ('o \<Rightarrow> real tensor) list \<Rightarrow> (int \<times> real tensor) list" where
  "history o1 o' si [] = []"
| "history o1 o' si (b # bs) = (si, b o') # history o1 o' (si + int (shape (b o1) ! 0)) bs"

text \<open>The invariant of a run: the record has the shape of a dense or of a spatial record
  with \<open>n\<close> slots, and every slot is traceable.\<close>

definition record_ok :: "nat \<Rightarrow> (int \<times> real tensor) list \<Rightarrow> maxact_record \<Rightarrow> bool" where
  "record_ok n H rec \<longleftrightarrow>
     (\<exists>u. (dense_record rec n u \<or> (\<exists>h w. spatial_record rec n u h w)) \<and>
          (\<forall>i<n. \<forall>j<u. slot_traceable H rec i j))"

section \<open>Properties\<close>

subsection \<open>Auxiliary facts\<close>

lemma err_bind_Inr_iff:
  "err_bind m f = Inr y \<longleftrightarrow> (\<exists>x. m = Inr x \<and> f x = Inr y)"
  by (cases m) auto

lemma set_positions: "set (positions s) = {idx. list_all2 (<) idx s}"
proof (induction s)
  case Nil then show ?case by simp
next
  case (Cons n ns)
  show ?case
  proof (rule set_eqI)
    fix idx
    show "idx \<in> set (positions (n # ns)) \<longleftrightarrow> idx \<in> {idx. list_all2 (<) idx (n # ns)}"
      using Cons by (cases idx) (auto simp: list_all2_Cons2)
  qed
qed

lemma index_ok_nonneg: "0 \<le> i \<Longrightarrow> i < int m \<Longrightarrow> index_ok m i"
  by (simp add: index_ok_def)

lemma norm_index_nonneg: "0 \<le> i \<Longrightarrow> norm_index m i = nat i"
  by (simp add: norm_index_def)

lemma bc_pos_2 [simp]:
  "i < n \<Longrightarrow> j < u \<Longrightarrow> bc_pos [n, u] [i, j] = [i, j]"
  "j < u \<Longrightarrow> bc_pos [1, u] [i, j] = [0, j]"
  "j < u \<Longrightarrow> bc_pos [Suc 0, u] [i, j] = [0, j]"
  by (auto simp: bc_pos_def)

lemma adv_index_2:
  assumes "shape data = [m, u]" "shape p = [n, u]" "shape c = [1, u]"
    and p: "\<And>i j. i < n \<Longrightarrow> j < u \<Longrightarrow> 0 \<le> item p [i, j] \<and> item p [i, j] < int m"
    and c: "\<And>j. j < u \<Longrightarrow> item c [0, j] = int j"
  shows "\<exists>t. adv_index data [p, c] = Inr t \<and> shape t = [n, u] \<and>
     (\<forall>i<n. \<forall>j<u. item t [i, j] = item data [nat (item p [i, j]), j])"
proof -
  have bs: "broadcast_shapes (map shape [p, c]) = Some [n, u]"
    using assms by (simp add: broadcast2_def)
  have ok: "list_all (\<lambda>pos. list_all2 (\<lambda>t n. index_ok n (bc_item t pos)) [p, c] (shape data))
               (positions [n, u])"
    unfolding list_all_iff set_positions using assms(1-3)
    by (auto simp: list_all2_Cons2 bc_item_def p c intro!: index_ok_nonneg)
  show ?thesis
    using assms(1-3) bs ok
    by (auto simp: adv_index_def ndim_def bc_item_def p c norm_index_nonneg)
qed

lemma upt_small: "[0..<2] = [0, 1]" "[0..<3] = [0, 1, 2]" "[0..<4] = [0, 1, 2, 3]"
  by (simp_all add: upt_rec)

lemma apply_perm_2:
  assumes "shape data = [m, u]" "shape p = [n, u]"
    and p: "\<And>i j. i < n \<Longrightarrow> j < u \<Longrightarrow> 0 \<le> item p [i, j] \<and> item p [i, j] < int m"
  shows "\<exists>t. apply_perm data p 0 = Inr t \<and> shape t = [n, u] \<and>
     (\<forall>i<n. \<forall>j<u. item t [i, j] = item data [nat (item p [i, j]), j])"
proof -
  define c where "c = Tensor [1, u] (\<lambda>idx. int (idx ! 1))"
  have ap: "apply_perm data p 0 = adv_index data [p, c]"
    using assms(1,2) by (simp add: apply_perm_def ndim_def upt_small axis_count_def c_def)
  show ?thesis unfolding ap
    by (rule adv_index_2[OF assms(1,2) _ p]) (simp_all add: c_def)
qed

lemma bc_pos_3 [simp]:
  "i < n \<Longrightarrow> j < u \<Longrightarrow> k < w \<Longrightarrow> bc_pos [n, u, 1] [i, j, k] = [i, j, 0]"
  "i < n \<Longrightarrow> j < u \<Longrightarrow> k < w \<Longrightarrow> bc_pos [n, u, Suc 0] [i, j, k] = [i, j, 0]"
  "j < u \<Longrightarrow> bc_pos [1, u, 1] [i, j, k] = [0, j, 0]"
  "j < u \<Longrightarrow> bc_pos [Suc 0, u, Suc 0] [i, j, k] = [0, j, 0]"
  "k < w \<Longrightarrow> bc_pos [1, 1, w] [i, j, k] = [0, 0, k]"
  "k < w \<Longrightarrow> bc_pos [Suc 0, Suc 0, w] [i, j, k] = [0, 0, k]"
  by (auto simp: bc_pos_def)

lemma adv_index_3:
  assumes "shape data = [m, u, w]" "shape p = [n, u, 1]" "shape c1 = [1, u, 1]" "shape c2 = [1, 1, w]"
    and p: "\<And>i j. i < n \<Longrightarrow> j < u \<Longrightarrow> 0 \<le> item p [i, j, 0] \<and> item p [i, j, 0] < int m"
    and c1: "\<And>j. j < u \<Longrightarrow> item c1 [0, j, 0] = int j"
    and c2: "\<And>k. k < w \<Longrightarrow> item c2 [0, 0, k] = int k"
  shows "\<exists>t. adv_index data [p, c1, c2] = Inr t \<and> shape t = [n, u, w] \<and>
     (\<forall>i<n. \<forall>j<u. \<forall>k<w. item t [i, j, k] = item data [nat (item p [i, j, 0]), j, k])"
proof -
  have bs: "broadcast_shapes (map shape [p, c1, c2]) = Some [n, u, w]"
    using assms(1-4) by (auto simp add: broadcast2_def)
  have ok: "list_all (\<lambda>pos. list_all2 (\<lambda>t n. index_ok n (bc_item t pos)) [p, c1, c2] (shape data))
               (positions [n, u, w])"
    unfolding list_all_iff set_positions using assms(1-4)
    by (auto simp: list_all2_Cons2 bc_item_def p c1 c2 intro!: index_ok_nonneg)
  show ?thesis
    using assms(1-4) bs ok
    by (auto simp: adv_index_def ndim_def bc_item_def p c1 c2 norm_index_nonneg)
qed

lemma apply_perm_3:
  assumes "shape data = [m, u, w]" "shape p = [n, u]"
    and p: "\<And>i j. i < n \<Longrightarrow> j < u \<Longrightarrow> 0 \<le> item p [i, j] \<and> item p [i, j] < int m"
  shows "\<exists>t. apply_perm data p 0 = Inr t \<and> shape t = [n, u, w] \<and>
     (\<forall>i<n. \<forall>j<u. \<forall>k<w. item t [i, j, k] = item data [nat (item p [i, j]), j, k])"
proof -
  define c1 where "c1 = Tensor [1, u, 1] (\<lambda>idx. int (idx ! 1))"
  define c2 where "c2 = Tensor [1, 1, w] (\<lambda>idx. int (idx ! 2))"
  define p' where "p' = shape_padright p 1"
  have ap: "apply_perm data p 0 = adv_index data [p', c1, c2]"
    using assms(1,2) by (simp add: apply_perm_def ndim_def upt_small axis_count_def c1_def c2_def p'_def numeral_2_eq_2)
  have sp: "shape p' = [n, u, 1]" "\<And>i j. item p' [i, j, 0] = item p [i, j]"
    using assms(2) by (simp_all add: p'_def shape_padright_def ndim_def)
  show ?thesis unfolding ap
    using adv_index_3[OF assms(1) sp(1), of c1 c2] p
    by (simp add: c1_def c2_def sp(2))
qed

lemma bc_pos_4 [simp]:
  "i < n \<Longrightarrow> j < u \<Longrightarrow> bc_pos [n, u, 1, 1] [i, j, k, l] = [i, j, 0, 0]"
  "i < n \<Longrightarrow> j < u \<Longrightarrow> bc_pos [n, u, Suc 0, Suc 0] [i, j, k, l] = [i, j, 0, 0]"
  "j < u \<Longrightarrow> bc_pos [1, u, 1, 1] [i, j, k, l] = [0, j, 0, 0]"
  "j < u \<Longrightarrow> bc_pos [Suc 0, u, Suc 0, Suc 0] [i, j, k, l] = [0, j, 0, 0]"
  "k < h \<Longrightarrow> bc_pos [1, 1, h, 1] [i, j, k, l] = [0, 0, k, 0]"
  "k < h \<Longrightarrow> bc_pos [Suc 0, Suc 0, h, Suc 0] [i, j, k, l] = [0, 0, k, 0]"
  "l < w \<Longrightarrow> bc_pos [1, 1, 1, w] [i, j, k, l] = [0, 0, 0, l]"
  "l < w \<Longrightarrow> bc_pos [Suc 0, Suc 0, Suc 0, w] [i, j, k, l] = [0, 0, 0, l]"
  by (auto simp: bc_pos_def)

lemma adv_index_4:
  assumes "shape data = [m, u, h, w]" "shape p = [n, u, 1, 1]" "shape c1 = [1, u, 1, 1]"
      "shape c2 = [1, 1, h, 1]" "shape c3 = [1, 1, 1, w]"
    and p: "\<And>i j. i < n \<Longrightarrow> j < u \<Longrightarrow> 0 \<le> item p [i, j, 0, 0] \<and> item p [i, j, 0, 0] < int m"
    and c1: "\<And>j. j < u \<Longrightarrow> item c1 [0, j, 0, 0] = int j"
    and c2: "\<And>k. k < h \<Longrightarrow> item c2 [0, 0, k, 0] = int k"
    and c3: "\<And>l. l < w \<Longrightarrow> item c3 [0, 0, 0, l] = int l"
  shows "\<exists>t. adv_index data [p, c1, c2, c3] = Inr t \<and> shape t = [n, u, h, w] \<and>
     (\<forall>i<n. \<forall>j<u. \<forall>k<h. \<forall>l<w. item t [i, j, k, l] = item data [nat (item p [i, j, 0, 0]), j, k, l])"
proof -
  have bs: "broadcast_shapes (map shape [p, c1, c2, c3]) = Some [n, u, h, w]"
    using assms(1-5) by (auto simp add: broadcast2_def)
  have ok: "list_all (\<lambda>pos. list_all2 (\<lambda>t n. index_ok n (bc_item t pos)) [p, c1, c2, c3] (shape data))
               (positions [n, u, h, w])"
    unfolding list_all_iff set_positions using assms(1-5)
    by (auto simp: list_all2_Cons2 bc_item_def p c1 c2 c3 intro!: index_ok_nonneg)
  show ?thesis
    using assms(1-5) bs ok
    by (auto simp: adv_index_def ndim_def bc_item_def p c1 c2 c3 norm_index_nonneg)
qed

lemma apply_perm_4:
  assumes "shape data = [m, u, h, w]" "shape p = [n, u]"
    and p: "\<And>i j. i < n \<Longrightarrow> j < u \<Longrightarrow> 0 \<le> item p [i, j] \<and> item p [i, j] < int m"
  shows "\<exists>t. apply_perm data p 0 = Inr t \<and> shape t = [n, u, h, w] \<and>
     (\<forall>i<n. \<forall>j<u. \<forall>k<h. \<forall>l<w. item t [i, j, k, l] = item data [nat (item p [i, j]), j, k, l])"
proof -
  define c1 where "c1 = Tensor [1, u, 1, 1] (\<lambda>idx. int (idx ! 1))"
  define c2 where "c2 = Tensor [1, 1, h, 1] (\<lambda>idx. int (idx ! 2))"
  define c3 where "c3 = Tensor [1, 1, 1, w] (\<lambda>idx. int (idx ! 3))"
  define p' where "p' = shape_padright p 2"
  have ap: "apply_perm data p 0 = adv_index data [p', c1, c2, c3]"
    using assms(1,2) by (simp add: apply_perm_def ndim_def upt_small axis_count_def c1_def c2_def c3_def p'_def numeral_2_eq_2 numeral_3_eq_3)
  have sp: "shape p' = [n, u, 1, 1]" "\<And>i j. item p' [i, j, 0, 0] = item p [i, j]"
    using assms(2) by (simp_all add: p'_def shape_padright_def ndim_def numeral_2_eq_2)
  show ?thesis unfolding ap
    using adv_index_4[OF assms(1) sp(1), of c1 c2 c3] p
    by (simp add: c1_def c2_def c3_def sp(2))
qed

lemma apply_index_3_last:
  assumes "shape data = [b, u, k]" "shape ix = [b, u]"
    and p: "\<And>i j. i < b \<Longrightarrow> j < u \<Longrightarrow> 0 \<le> item ix [i, j] \<and> item ix [i, j] < int k"
  shows "\<exists>t. apply_index data ix 2 = Inr t \<and> shape t = [b, u] \<and>
     (\<forall>i<b. \<forall>j<u. item t [i, j] = item data [i, j, nat (item ix [i, j])])"
proof -
  define c0 where "c0 = Tensor [b, 1] (\<lambda>idx. int (idx ! 0))"
  define c1 where "c1 = Tensor [1, u] (\<lambda>idx. int (idx ! 1))"
  have ap: "apply_index data ix 2 = adv_index data [c0, c1, ix]"
    using assms(1,2) by (simp add: apply_index_def ndim_def upt_small axis_count_def c0_def c1_def numeral_2_eq_2)
  have bs: "broadcast_shapes (map shape [c0, c1, ix]) = Some [b, u]"
    using assms(1,2) by (auto simp add: broadcast2_def c0_def c1_def)
  have bp: "\<And>i j. i < b \<Longrightarrow> j < u \<Longrightarrow> bc_pos [b, 1] [i, j] = [i, 0]"
      "\<And>i j. i < b \<Longrightarrow> j < u \<Longrightarrow> bc_pos [b, Suc 0] [i, j] = [i, 0]"
    by (auto simp: bc_pos_def)
  have ok: "list_all (\<lambda>pos. list_all2 (\<lambda>t n. index_ok n (bc_item t pos)) [c0, c1, ix] (shape data))
               (positions [b, u])"
    unfolding list_all_iff set_positions using assms(1,2)
    by (auto simp: list_all2_Cons2 bc_item_def p c0_def c1_def bp intro!: index_ok_nonneg)
  show ?thesis unfolding ap
    using assms(1,2) bs ok
    by (auto simp: adv_index_def ndim_def bc_item_def p c0_def c1_def bp norm_index_nonneg)
qed

lemma argsort_length: "argsort_ok argsort \<Longrightarrow> length (argsort xs) = length xs"
  unfolding argsort_ok_def by (metis length_upt minus_nat.diff_0 size_mset)

lemma argsort_set: "argsort_ok argsort \<Longrightarrow> set (argsort xs) = {0..<length xs}"
  unfolding argsort_ok_def by (metis set_mset_mset set_upt)

lemma argsort_nth_lt:
  "argsort_ok argsort \<Longrightarrow> i < length xs \<Longrightarrow> argsort xs ! i < length xs"
  using argsort_set[of argsort xs] argsort_length[of argsort xs]
  by (metis atLeastLessThan_iff nth_mem)

lemma argsort_distinct: "argsort_ok argsort \<Longrightarrow> distinct (argsort xs)"
  unfolding argsort_ok_def by (metis distinct_upt mset_eq_imp_distinct_iff)

lemma argsort_sorted: "argsort_ok argsort \<Longrightarrow> sorted (map ((!) xs) (argsort xs))"
  unfolding argsort_ok_def by blast

lemma argsort_values:
  assumes "argsort_ok argsort"
  shows "map ((!) xs) (argsort xs) = sort xs"
proof -
  have "mset (map ((!) xs) (argsort xs)) = image_mset ((!) xs) (mset [0..<length xs])"
    using assms unfolding argsort_ok_def by (metis mset_map)
  also have "\<dots> = mset (map ((!) xs) [0..<length xs])" by simp
  also have "\<dots> = mset xs" by (simp add: map_nth)
  finally have "mset (map ((!) xs) (argsort xs)) = mset xs" .
  then show ?thesis
    using argsort_sorted[OF assms, of xs] by (metis properties_for_sort)
qed

lemma stable_argsort_ok: "argsort_ok stable_argsort"
  unfolding argsort_ok_def stable_argsort_def by simp

lemma lane0_neg:
  "shape x = [m, u] \<Longrightarrow> lane (neg x) 0 [j] = map uminus (column x j)"
  by (simp add: lane_def neg_def column_def)

lemma length_column [simp]: "length (column x j) = shape x ! 0"
  by (simp add: column_def)

lemma nth_column: "i < shape x ! 0 \<Longrightarrow> column x j ! i = item x [i, j]"
  by (simp add: column_def)

lemma cargsort_2:
  assumes ok: "argsort_ok argsort" and sh: "shape cmax = [m, u]" and n: "n \<le> m"
  shows "\<exists>cs. cargsort argsort cmax (int n) = Inr cs \<and> shape cs = [n, u] \<and>
     (\<forall>i<n. \<forall>j<u. item cs [i, j] = int (argsort (map uminus (column cmax j)) ! i)
        \<and> 0 \<le> item cs [i, j] \<and> item cs [i, j] < int m)"
proof -
  have lt: "\<And>i j. i < n \<Longrightarrow> argsort (map uminus (column cmax j)) ! i < m"
    using argsort_nth_lt[OF ok, of _ "map uminus (column cmax _)"] sh n by simp
  have shn: "shape (neg cmax) = [m, u]" by (simp add: neg_def sh)
  have "cargsort argsort cmax (int n) = Inr (Tensor [n, u]
      (\<lambda>idx. int (argsort (lane (neg cmax) 0 (tl idx)) ! (idx ! 0))))"
    using n by (simp add: cargsort_def argsort0_def shn take_rows_def slice_stop_def min_def)
  then show ?thesis
    using lt by (simp add: lane0_neg[OF sh])
qed

lemma counters_2:
  assumes "shape output = b # u # rest"
  shows "\<exists>c. counters output si = Inr c \<and> shape c = [b, u] \<and>
     (\<forall>i<b. \<forall>j<u. item c [i, j] = int i + si)"
  using assms
  by (simp add: counters_def ndim_def tile_def shape_padright_def add_scalar_def arange_def)

lemma concatenate_2:
  assumes "shape a = n # s" "shape b = m # s"
  shows "concatenate a b = Inr (Tensor ((n + m) # s)
             (\<lambda>idx. if idx ! 0 < n then item a idx else item b ((idx ! 0 - n) # tl idx)))"
  using assms by (simp add: concatenate_def)

lemma column_concat:
  assumes "shape a = [n, u]" "shape b = [m, u]" "concatenate a b = Inr c"
  shows "column c j = column a j @ column b j"
proof -
  have c: "c = Tensor [n + m, u]
             (\<lambda>idx. if idx ! 0 < n then item a idx else item b ((idx ! 0 - n) # tl idx))"
    using assms concatenate_2[OF assms(1,2)] by simp
  show ?thesis
    by (rule nth_equalityI) (auto simp: c column_def assms nth_append)
qed

lemma ranking_length:
  "argsort_ok argsort \<Longrightarrow> n \<le> length cvals \<Longrightarrow> length (ranking argsort n cvals) = n"
  by (simp add: ranking_def argsort_length)

lemma ranking_nth:
  "i < n \<Longrightarrow> ranking argsort n cvals ! i = argsort (map uminus cvals) ! i"
  by (simp add: ranking_def)

lemma update_dense:
  assumes ok: "argsort_ok argsort" and rec: "dense_record rec n u" and out: "shape output = [b, u]"
  shows "\<exists>r. create_maximum_activation_update argsort output rec si (int n) = Inr r \<and>
     shape (newmax r) = [n, u] \<and> shape (newind r) = [n, u] \<and> newsnap r = None \<and>
     (\<forall>j<u. column (newmax r) j =
          map ((!) (column (quantity rec) j @ column output j))
            (ranking argsort n (column (quantity rec) j @ column output j)) \<and>
        column (newind r) j =
          map ((!) (column (index rec) j @ map (\<lambda>i. int i + si) [0..<b]))
            (ranking argsort n (column (quantity rec) j @ column output j)))"
proof -
  have q: "shape (quantity rec) = [n, u]" and ix: "shape (index rec) = [n, u]"
    and sn: "snapshot rec = None" and d: "length (dims rec) = 1"
    using rec by (simp_all add: dense_record_def)
  obtain cnt where cnt: "counters output si = Inr cnt" "shape cnt = [b, u]"
      "\<And>i j. i < b \<Longrightarrow> j < u \<Longrightarrow> item cnt [i, j] = int i + si"
    using counters_2[OF out, of si] by blast
  have cand: "candidates output (dims rec) cnt = Inr (output, cnt)"
    by (simp add: candidates_def d)
  obtain cmax where cmax: "concatenate (quantity rec) output = Inr cmax" "shape cmax = [n + b, u]"
    using concatenate_2[OF q out] by simp
  obtain cind where cind: "concatenate (index rec) cnt = Inr cind" "shape cind = [n + b, u]"
    using concatenate_2[OF ix cnt(2)] by simp
  have colq: "\<And>j. column cmax j = column (quantity rec) j @ column output j"
    using column_concat[OF q out cmax(1)] .
  have coli: "\<And>j. j < u \<Longrightarrow> column cind j = column (index rec) j @ map (\<lambda>i. int i + si) [0..<b]"
  proof -
    fix j assume "j < u"
    then have "column cnt j = map (\<lambda>i. int i + si) [0..<b]"
      by (auto simp: column_def cnt)
    then show "column cind j = column (index rec) j @ map (\<lambda>i. int i + si) [0..<b]"
      using column_concat[OF ix cnt(2) cind(1), of j] by simp
  qed
  obtain cs where cs: "cargsort argsort cmax (int n) = Inr cs" "shape cs = [n, u]"
     "\<And>i j. i < n \<Longrightarrow> j < u \<Longrightarrow> item cs [i, j] = int (argsort (map uminus (column cmax j)) ! i)"
     "\<And>i j. i < n \<Longrightarrow> j < u \<Longrightarrow> 0 \<le> item cs [i, j] \<and> item cs [i, j] < int (n + b)"
    using cargsort_2[OF ok cmax(2), of n] by (metis le_add1)
  obtain nm where nm: "apply_perm cmax cs 0 = Inr nm" "shape nm = [n, u]"
     "\<And>i j. i < n \<Longrightarrow> j < u \<Longrightarrow> item nm [i, j] = item cmax [nat (item cs [i, j]), j]"
    using apply_perm_2[OF cmax(2) cs(2) cs(4)] by blast
  obtain ni where ni: "apply_perm cind cs 0 = Inr ni" "shape ni = [n, u]"
     "\<And>i j. i < n \<Longrightarrow> j < u \<Longrightarrow> item ni [i, j] = item cind [nat (item cs [i, j]), j]"
    using apply_perm_2[OF cind(2) cs(2) cs(4)] by blast
  have res: "create_maximum_activation_update argsort output rec si (int n)
      = Inr \<lparr>newmax = nm, newind = ni, newsnap = None\<rparr>"
    by (simp add: create_maximum_activation_update_def cnt(1) cand cmax(1) cind(1) cs(1) nm(1) ni(1) sn)
  have lt: "\<And>i j. i < n \<Longrightarrow> argsort (map uminus (column cmax j)) ! i < n + b"
    using argsort_nth_lt[OF ok, of _ "map uminus (column cmax _)"] cmax(2) by simp
  have cols: "\<And>j. j < u \<Longrightarrow> column nm j = map ((!) (column cmax j)) (ranking argsort n (column cmax j))
       \<and> column ni j = map ((!) (column cind j)) (ranking argsort n (column cmax j))"
  proof -
    fix j assume j: "j < u"
    have len: "length (ranking argsort n (column cmax j)) = n"
      by (rule ranking_length[OF ok]) (simp add: cmax(2))
    have "column nm j = map ((!) (column cmax j)) (ranking argsort n (column cmax j))"
      by (rule nth_equalityI)
         (simp_all add: len nm(2) nth_column nm(3) j cs(3) ranking_nth lt cmax(2))
    moreover have "column ni j = map ((!) (column cind j)) (ranking argsort n (column cmax j))"
      by (rule nth_equalityI)
         (simp_all add: len ni(2) nth_column ni(3) j cs(3) ranking_nth lt cind(2))
    ultimately show "column nm j = map ((!) (column cmax j)) (ranking argsort n (column cmax j))
       \<and> column ni j = map ((!) (column cind j)) (ranking argsort n (column cmax j))" by simp
  qed
  show ?thesis
    unfolding res using cols by (simp add: nm(2) ni(2) colq coli)
qed

lemma argmax_from_props:
  "bv \<le> fold max xs bv \<and>
   (argmax_from bi bv i xs = bi \<and> fold max xs bv = bv \<or>
    (\<exists>k<length xs. argmax_from bi bv i xs = i + k \<and> xs ! k = fold max xs bv))"
proof (induction xs arbitrary: bi bv i)
  case Nil
  then show ?case by simp
next
  case (Cons x xs)
  show ?case
  proof (cases "bv < x")
    case True
    then have m: "max x bv = x" by simp
    from Cons.IH[of x i "Suc i"] True show ?thesis
      by (auto simp: m intro: exI[of _ 0] dest: less_imp_le order_trans)
  next
    case False
    then have m: "max x bv = bv" by simp
    from Cons.IH[of bv bi "Suc i"] False show ?thesis
      by (auto simp: m)
  qed
qed

lemma argmax_list_props:
  assumes "xs \<noteq> []"
  shows "argmax_list xs < length xs" "xs ! argmax_list xs = max_list xs"
proof -
  obtain x ys where xs: "xs = x # ys" using assms by (cases xs) auto
  from argmax_from_props[of x ys 0 1]
  show "argmax_list xs < length xs" "xs ! argmax_list xs = max_list xs"
    by (auto simp: xs)
qed


lemma flatten_4:
  assumes "shape output = [b, u, h, w]" "0 < b" "0 < u"
  shows "\<exists>fmax. flatten output 3 = Inr fmax \<and> shape fmax = [b, u, h * w] \<and>
     (\<forall>i j k. item fmax [i, j, k] = item output [i, j, k div w, k mod w])"
  using assms by (simp add: flatten_def ndim_def numeral_3_eq_3 numeral_2_eq_2)

lemma lane_2:
  "shape fmax = [b, u, k] \<Longrightarrow> lane fmax 2 [i, j] = map (\<lambda>l. item fmax [i, j, l]) [0..<k]"
  by (simp add: lane_def numeral_2_eq_2)

lemma argmax_3_last:
  assumes "shape fmax = [b, u, k]" "0 < k"
  shows "\<exists>am. argmax fmax 2 = Inr am \<and> shape am = [b, u] \<and>
     (\<forall>i j. item am [i, j] = int (argmax_list (map (\<lambda>l. item fmax [i, j, l]) [0..<k])))"
proof -
  have "\<not> ndim fmax \<le> 2" "shape fmax ! 2 = k" "drop_axis 2 (shape fmax) = [b, u]"
    using assms by (simp_all add: ndim_def drop_axis_def numeral_2_eq_2 numeral_3_eq_3)
  then show ?thesis
    using assms(2) by (simp add: argmax_def lane_2[OF assms(1)])
qed

lemma stack_3:
  assumes "shape a = [b, u]" "shape q = [b, u]" "shape r = [b, u]"
  shows "\<exists>t. stack [a, q, r] 2 = Inr t \<and> shape t = [b, u, 3] \<and>
     (\<forall>i j. item t [i, j, 0] = item a [i, j] \<and> item t [i, j, 1] = item q [i, j]
         \<and> item t [i, j, 2] = item r [i, j])"
  using assms by (simp add: stack_def ndim_def drop_axis_def numeral_2_eq_2 numeral_3_eq_3)

lemma length_column3 [simp]: "length (column3 x j k) = shape x ! 0"
  by (simp add: column3_def)

lemma nth_column3: "i < shape x ! 0 \<Longrightarrow> column3 x j k ! i = item x [i, j, k]"
  by (simp add: column3_def)

lemma column3_concat:
  assumes "shape a = [n, u, w]" "shape b = [m, u, w]" "concatenate a b = Inr c"
  shows "column3 c j k = column3 a j k @ column3 b j k"
proof -
  have c: "c = Tensor [n + m, u, w]
             (\<lambda>idx. if idx ! 0 < n then item a idx else item b ((idx ! 0 - n) # tl idx))"
    using assms concatenate_2[OF assms(1,2)] by simp
  show ?thesis
    by (rule nth_equalityI) (auto simp: c column3_def assms nth_append)
qed

lemma update_spatial:
  assumes ok: "argsort_ok argsort" and rec: "spatial_record rec n u h w"
    and out: "shape output = [b, u, h, w]" and hw: "0 < h * w" and bu: "0 < b" "0 < u"
  shows "\<exists>r. create_maximum_activation_update argsort output rec si (int n) = Inr r \<and>
     shape (newmax r) = [n, u] \<and> shape (newind r) = [n, u, 3] \<and>
     (case newsnap r of None \<Rightarrow> False | Some ns \<Rightarrow> shape ns = [n, u, h, w]) \<and>
     (\<forall>j<u. column (newmax r) j =
          map ((!) (column (quantity rec) j @ map (\<lambda>i. max_list (feature_map output i j)) [0..<b]))
            (ranking argsort n
               (column (quantity rec) j @ map (\<lambda>i. max_list (feature_map output i j)) [0..<b])) \<and>
        (\<forall>k<3. column3 (newind r) j k =
          map ((!) (column3 (index rec) j k @ map (location output si j k) [0..<b]))
            (ranking argsort n
               (column (quantity rec) j @ map (\<lambda>i. max_list (feature_map output i j)) [0..<b]))))"
proof -
  have q: "shape (quantity rec) = [n, u]" and ix: "shape (index rec) = [n, u, 3]"
    and d: "dims rec = [int u, int h, int w]"
    using rec by (simp_all add: spatial_record_def)
  obtain snap where sn: "snapshot rec = Some snap" "shape snap = [n, u, h, w]"
    using rec by (auto simp: spatial_record_def split: option.splits)
  have w: "0 < w" using hw by simp
  obtain cnt where cnt: "counters output si = Inr cnt" "shape cnt = [b, u]"
      "\<And>i j. i < b \<Longrightarrow> j < u \<Longrightarrow> item cnt [i, j] = int i + si"
    using counters_2[OF out, of si] by blast
  obtain fmax where fmax: "flatten output 3 = Inr fmax" "shape fmax = [b, u, h * w]"
      "\<And>i j k. item fmax [i, j, k] = item output [i, j, k div w, k mod w]"
    using flatten_4[OF out bu] by blast
  have fm: "\<And>i j. map (\<lambda>l. item fmax [i, j, l]) [0..<h * w] = feature_map output i j"
    by (simp add: feature_map_def out fmax(3) numeral_2_eq_2 numeral_3_eq_3)
  have fmne: "\<And>i j. feature_map output i j \<noteq> []"
    using hw by (simp add: feature_map_def out numeral_2_eq_2 numeral_3_eq_3)
  have fmlen: "\<And>i j. length (feature_map output i j) = h * w"
    by (simp add: feature_map_def out numeral_2_eq_2 numeral_3_eq_3)
  obtain am where am: "argmax fmax 2 = Inr am" "shape am = [b, u]"
      "\<And>i j. item am [i, j] = int (argmax_list (feature_map output i j))"
    using argmax_3_last[OF fmax(2) hw] unfolding fm by blast
  have amr: "\<And>i j. i < b \<Longrightarrow> j < u \<Longrightarrow> 0 \<le> item am [i, j] \<and> item am [i, j] < int (h * w)"
    using argmax_list_props(1)[OF fmne] by (simp add: am(3) fmlen del: of_nat_mult)
  obtain tmax where tmax: "apply_index fmax am 2 = Inr tmax" "shape tmax = [b, u]"
      "\<And>i j. i < b \<Longrightarrow> j < u \<Longrightarrow> item tmax [i, j] = item fmax [i, j, nat (item am [i, j])]"
    using apply_index_3_last[OF fmax(2) am(2) amr] by blast
  have tmaxv: "\<And>i j. i < b \<Longrightarrow> j < u \<Longrightarrow> item tmax [i, j] = max_list (feature_map output i j)"
  proof -
    fix i j assume ij: "i < b" "j < u"
    have "item tmax [i, j] = map (\<lambda>l. item fmax [i, j, l]) [0..<h * w] ! argmax_list (feature_map output i j)"
      using argmax_list_props(1)[OF fmne, of i j] by (simp add: tmax(3) ij am(3) fmlen)
    then show "item tmax [i, j] = max_list (feature_map output i j)"
      unfolding fm using argmax_list_props(2)[OF fmne, of i j] by simp
  qed
  define qq where "qq = Tensor (shape am) (\<lambda>idx. item am idx div int w)"
  define rr where "rr = Tensor (shape am) (\<lambda>idx. item am idx mod int w)"
  have dm: "divmod_scalar am (int w) = Inr (qq, rr)"
    using w by (simp add: divmod_scalar_def qq_def rr_def)
  obtain tind where tind: "stack [cnt, qq, rr] 2 = Inr tind" "shape tind = [b, u, 3]"
      "\<And>i j. item tind [i, j, 0] = item cnt [i, j]"
      "\<And>i j. item tind [i, j, 1] = item qq [i, j]"
      "\<And>i j. item tind [i, j, 2] = item rr [i, j]"
    using stack_3[OF cnt(2), of qq rr] am(2) by (auto simp: qq_def rr_def)
  have tind': "\<And>i j. item tind [i, j, Suc 0] = item qq [i, j]"
      "\<And>i j. item tind [i, j, Suc (Suc 0)] = item rr [i, j]"
    using tind(4,5) by (simp_all add: numeral_2_eq_2)
  have cand: "candidates output (dims rec) cnt = Inr (tmax, tind)"
    by (simp add: candidates_def d fmax(1) am(1) tmax(1) dm tind(1))
  obtain cmax where cmax: "concatenate (quantity rec) tmax = Inr cmax" "shape cmax = [n + b, u]"
    using concatenate_2[OF q tmax(2)] by simp
  obtain cind where cind: "concatenate (index rec) tind = Inr cind" "shape cind = [n + b, u, 3]"
    using concatenate_2[OF ix tind(2)] by simp
  obtain csnap where csnap: "concatenate snap output = Inr csnap" "shape csnap = [n + b, u, h, w]"
    using concatenate_2[OF sn(2) out] by simp
  have colq: "\<And>j. j < u \<Longrightarrow> column cmax j =
      column (quantity rec) j @ map (\<lambda>i. max_list (feature_map output i j)) [0..<b]"
  proof -
    fix j assume "j < u"
    then have "column tmax j = map (\<lambda>i. max_list (feature_map output i j)) [0..<b]"
      by (auto simp: column_def tmax(2) tmaxv)
    then show "column cmax j =
      column (quantity rec) j @ map (\<lambda>i. max_list (feature_map output i j)) [0..<b]"
      using column_concat[OF q tmax(2) cmax(1), of j] by simp
  qed
  have coli: "\<And>j k. j < u \<Longrightarrow> k < 3 \<Longrightarrow> column3 cind j k =
      column3 (index rec) j k @ map (location output si j k) [0..<b]"
  proof -
    fix j k :: nat assume j: "j < u" and k: "k < 3"
    from k consider "k = 0" | "k = 1" | "k = 2" by linarith
    then have "column3 tind j k = map (location output si j k) [0..<b]"
    proof cases
      case 1 then show ?thesis
        using j by (auto simp: column3_def tind(2,3) cnt(3) location_def)
    next
      case 2 then show ?thesis
        by (auto simp: column3_def tind(2) tind' qq_def am(3) location_def out numeral_3_eq_3)
    next
      case 3 then show ?thesis
        by (auto simp: column3_def tind(2) tind' rr_def am(3) location_def out numeral_3_eq_3 numeral_2_eq_2)
    qed
    then show "column3 cind j k =
      column3 (index rec) j k @ map (location output si j k) [0..<b]"
      using column3_concat[OF ix tind(2) cind(1), of j k] by simp
  qed
  obtain cs where cs: "cargsort argsort cmax (int n) = Inr cs" "shape cs = [n, u]"
     "\<And>i j. i < n \<Longrightarrow> j < u \<Longrightarrow> item cs [i, j] = int (argsort (map uminus (column cmax j)) ! i)"
     "\<And>i j. i < n \<Longrightarrow> j < u \<Longrightarrow> 0 \<le> item cs [i, j] \<and> item cs [i, j] < int (n + b)"
    using cargsort_2[OF ok cmax(2), of n] by (metis le_add1)
  obtain nm where nm: "apply_perm cmax cs 0 = Inr nm" "shape nm = [n, u]"
     "\<And>i j. i < n \<Longrightarrow> j < u \<Longrightarrow> item nm [i, j] = item cmax [nat (item cs [i, j]), j]"
    using apply_perm_2[OF cmax(2) cs(2) cs(4)] by blast
  obtain ni where ni: "apply_perm cind cs 0 = Inr ni" "shape ni = [n, u, 3]"
     "\<And>i j k. i < n \<Longrightarrow> j < u \<Longrightarrow> k < 3 \<Longrightarrow> item ni [i, j, k] = item cind [nat (item cs [i, j]), j, k]"
    using apply_perm_3[OF cind(2) cs(2) cs(4)] by blast
  obtain ns where ns: "apply_perm csnap cs 0 = Inr ns" "shape ns = [n, u, h, w]"
    using apply_perm_4[OF csnap(2) cs(2) cs(4)] by blast
  have res: "create_maximum_activation_update argsort output rec si (int n)
      = Inr \<lparr>newmax = nm, newind = ni, newsnap = Some ns\<rparr>"
    by (simp add: create_maximum_activation_update_def cnt(1) cand cmax(1) cind(1) cs(1) nm(1)
        ni(1) sn csnap(1) ns(1))
  have lt: "\<And>i j. i < n \<Longrightarrow> argsort (map uminus (column cmax j)) ! i < n + b"
    using argsort_nth_lt[OF ok, of _ "map uminus (column cmax _)"] cmax(2) by simp
  have cols: "\<And>j. j < u \<Longrightarrow> column nm j = map ((!) (column cmax j)) (ranking argsort n (column cmax j))
       \<and> (\<forall>k<3. column3 ni j k = map ((!) (column3 cind j k)) (ranking argsort n (column cmax j)))"
  proof -
    fix j assume j: "j < u"
    have len: "length (ranking argsort n (column cmax j)) = n"
      by (rule ranking_length[OF ok]) (simp add: cmax(2))
    have "column nm j = map ((!) (column cmax j)) (ranking argsort n (column cmax j))"
      by (rule nth_equalityI)
         (simp_all add: len nm(2) nth_column nm(3) j cs(3) ranking_nth lt cmax(2))
    moreover have "\<And>k. k < 3 \<Longrightarrow> column3 ni j k = map ((!) (column3 cind j k)) (ranking argsort n (column cmax j))"
      by (rule nth_equalityI)
         (simp_all add: len ni(2) nth_column3 ni(3) j cs(3) ranking_nth lt cind(2))
    ultimately show "column nm j = map ((!) (column cmax j)) (ranking argsort n (column cmax j))
       \<and> (\<forall>k<3. column3 ni j k = map ((!) (column3 cind j k)) (ranking argsort n (column cmax j)))"
      by simp
  qed
  show ?thesis
    unfolding res using cols by (simp add: nm(2) ni(2) ns(2) colq coli)
qed

lemma ranking_set:
  assumes "argsort_ok argsort" "i \<in> set (ranking argsort n cv)"
  shows "i < length cv"
  using argsort_set[OF assms(1), of "map uminus cv"] assms(2)
  by (auto simp: ranking_def dest: in_set_takeD)

lemma ranking_values_neg:
  assumes ok: "argsort_ok argsort"
  shows "map (\<lambda>i. - (cv ! i)) (argsort (map uminus cv)) = map ((!) (map uminus cv)) (argsort (map uminus cv))"
  using argsort_set[OF ok, of "map uminus cv"] by simp

lemma ranking_sorted:
  assumes ok: "argsort_ok argsort"
  shows "sorted_wrt (\<ge>) (map ((!) cv) (ranking argsort n cv))"
proof -
  have "sorted (map (\<lambda>i. - (cv ! i)) (argsort (map uminus cv)))"
    unfolding ranking_values_neg[OF ok] by (rule argsort_sorted[OF ok])
  then have "sorted_wrt (\<lambda>a b. cv ! a \<ge> cv ! b) (argsort (map uminus cv))"
    by (simp add: sorted_wrt_map)
  then have "sorted_wrt (\<lambda>a b. cv ! a \<ge> cv ! b) (ranking argsort n cv)"
    unfolding ranking_def by (rule sorted_wrt_take)
  then show ?thesis by (simp add: sorted_wrt_map)
qed

lemma dense_update_shape:
  assumes rec: "dense_record rec n u"
    and res: "create_maximum_activation_update argsort output rec si t = Inr r"
  shows "\<exists>b. shape output = [b, u]"
proof -
  have q: "shape (quantity rec) = [n, u]" and d: "length (dims rec) = 1"
    using rec by (simp_all add: dense_record_def)
  from res obtain cnt cand cmax where "candidates output (dims rec) cnt = Inr cand"
      "concatenate (quantity rec) (fst cand) = Inr cmax"
    unfolding create_maximum_activation_update_def err_bind_Inr_iff by blast
  then have "concatenate (quantity rec) output = Inr cmax"
    by (auto simp: candidates_def d)
  then show ?thesis
    by (auto simp: concatenate_def q split: list.splits if_splits)
qed

lemma spatial_update_shape:
  assumes rec: "spatial_record rec n u h w"
    and res: "create_maximum_activation_update argsort output rec si t = Inr r"
  shows "\<exists>b. shape output = [b, u, h, w] \<and> 0 < h * w \<and> 0 < b \<and> 0 < u"
proof -
  have d: "dims rec = [int u, int h, int w]"
    using rec by (simp_all add: spatial_record_def)
  obtain snap where sn: "snapshot rec = Some snap" "shape snap = [n, u, h, w]"
    using rec by (auto simp: spatial_record_def split: option.splits)
  from res obtain cnt cand where c: "candidates output (dims rec) cnt = Inr cand"
    unfolding create_maximum_activation_update_def err_bind_Inr_iff by blast
  from res obtain csnap where "concatenate snap output = Inr csnap"
    by (auto simp: create_maximum_activation_update_def err_bind_Inr_iff sn)
  then obtain b where out: "shape output = [b, u, h, w]"
    by (auto simp: concatenate_def sn split: list.splits if_splits)
  from c obtain fmax am where f: "flatten output 3 = Inr fmax" "argmax fmax 2 = Inr am"
    by (auto simp: candidates_def err_bind_Inr_iff d split: if_splits)
  have bu: "0 < b" "0 < u"
    using f(1) by (auto simp: flatten_def out numeral_3_eq_3 numeral_2_eq_2 split: if_splits)
  have "shape fmax = [b, u, h * w]" using flatten_4[OF out bu] f(1) by auto
  then have "0 < h * w" using f(2)
    by (auto simp: argmax_def numeral_2_eq_2 split: if_splits)
  then show ?thesis using out bu by simp
qed

lemma argsort_nth_unique:
  assumes ok: "argsort_ok argsort" and k: "k < length xs"
    and u: "\<And>i. i < length xs \<Longrightarrow> xs ! i = sort xs ! k \<Longrightarrow> i = m"
  shows "argsort xs ! k = m"
proof -
  have "map ((!) xs) (argsort xs) ! k = sort xs ! k"
    by (simp only: argsort_values[OF ok])
  then have "xs ! (argsort xs ! k) = sort xs ! k"
    using k by (simp add: argsort_length[OF ok])
  then show ?thesis
    using u[OF argsort_nth_lt[OF ok k]] by simp
qed

lemma tolist2_column1: "shape t = [n, 1] \<Longrightarrow> tolist2 t = map (\<lambda>x. [x]) (column t 0)"
  by (simp add: tolist2_def column_def)

lemma create_for_dense:
  assumes "representable [int n, int u]"
  shows "create_maximum_activation_for get_dims x (int n) (Some (Integral (int u)))
     = Inr \<lparr>dims = [int u], quantity = Tensor [n, u] (\<lambda>_. 0), index = Tensor [n, u] (\<lambda>_. 0),
            snapshot = None\<rparr>"
  using assms by (simp add: create_maximum_activation_for_def zeros_def)

lemma create_for_spatial:
  assumes "representable [int n, int u, 3]" "representable [int n, int u, int h, int w]"
    "representable [int n, int u]"
  shows "create_maximum_activation_for get_dims x (int n) (Some (DimsTuple [int u, int h, int w]))
     = Inr \<lparr>dims = [int u, int h, int w], quantity = Tensor [n, u] (\<lambda>_. 0),
            index = Tensor [n, u, 3] (\<lambda>_. 0), snapshot = Some (Tensor [n, u, h, w] (\<lambda>_. 0))\<rparr>"
  using assms by (simp add: create_maximum_activation_for_def zeros_def)

lemma rank_A1:
  assumes ok: "argsort_ok argsort"
  shows "ranking argsort 2 [0, 0, 5, 1] = [2, 3]"
proof -
  let ?xs = "map uminus [0, 0, 5, 1::real]"
  have s: "sort ?xs = [-5, -1, 0, 0]" by simp
  have p0: "argsort ?xs ! 0 = 2"
    by (rule argsort_nth_unique[OF ok]) (auto simp: s less_Suc_eq)
  have p1: "argsort ?xs ! 1 = 3"
    by (rule argsort_nth_unique[OF ok]) (auto simp: s less_Suc_eq)
  have "length (argsort ?xs) = 4" by (simp add: argsort_length[OF ok])
  then show ?thesis
    using p0 p1 unfolding ranking_def
    by (simp add: take_Suc_conv_app_nth numeral_2_eq_2)
qed

lemma rank_A2:
  assumes ok: "argsort_ok argsort"
  shows "ranking argsort 2 [5, 1, 3] = [0, 2]"
proof -
  let ?xs = "map uminus [5, 1, 3::real]"
  have s: "sort ?xs = [-5, -3, -1]" by simp
  have p0: "argsort ?xs ! 0 = 0"
    by (rule argsort_nth_unique[OF ok]) (auto simp: s less_Suc_eq)
  have p1: "argsort ?xs ! 1 = 2"
    by (rule argsort_nth_unique[OF ok]) (auto simp: s less_Suc_eq)
  have "length (argsort ?xs) = 3" by (simp add: argsort_length[OF ok])
  then show ?thesis
    using p0 p1 unfolding ranking_def
    by (simp add: take_Suc_conv_app_nth numeral_2_eq_2)
qed

lemma tolist3_column3_1:
  "shape t = [1, 1, 3] \<Longrightarrow> tolist3 t = [[concat (map (column3 t 0) [0, 1, 2])]]"
  by (simp add: tolist3_def column3_def upt_small)

lemma rank_B:
  assumes ok: "argsort_ok argsort"
  shows "ranking argsort 1 [0, 9] = [1]"
proof -
  let ?xs = "map uminus [0, 9::real]"
  have s: "sort ?xs = [-9, 0]" by simp
  have p0: "argsort ?xs ! 0 = 1"
    by (rule argsort_nth_unique[OF ok]) (auto simp: s less_Suc_eq)
  have "length (argsort ?xs) = 2" by (simp add: argsort_length[OF ok])
  then show ?thesis
    using p0 unfolding ranking_def
    by (simp add: take_Suc_conv_app_nth)
qed

lemma prod_list_nonzero_ge_1:
  "\<forall>d\<in>set s. (0::int) \<le> d \<Longrightarrow> 1 \<le> prod_list (filter (\<lambda>d. d \<noteq> 0) s)"
proof (induction s)
  case Nil then show ?case by simp
next
  case (Cons d s)
  then have ih: "1 \<le> prod_list (filter (\<lambda>d. d \<noteq> 0) s)" by simp
  show ?case
  proof (cases "d = 0")
    case True then show ?thesis using ih by simp
  next
    case False
    with Cons.prems have "1 \<le> d" by simp
    then have "1 * 1 \<le> d * prod_list (filter (\<lambda>d. d \<noteq> 0) s)"
      using ih by (intro mult_mono) simp_all
    then show ?thesis using False by simp
  qed
qed

lemma not_representable:
  assumes "n < 0 \<or> maxint < 8 * n"
  shows "\<not> representable (n # s)"
proof
  assume r: "representable (n # s)"
  then have nn: "0 \<le> n" "\<forall>d\<in>set s. 0 \<le> d"
    by (auto simp: representable_def list_all_iff)
  with assms have big: "maxint < 8 * n" by simp
  have "0 < maxint" by (simp add: maxint_def)
  with big nn have n0: "n \<noteq> 0" by auto
  have "n * 1 \<le> n * prod_list (filter (\<lambda>d. d \<noteq> 0) s)"
    using nn prod_list_nonzero_ge_1[OF nn(2)] by (intro mult_left_mono) simp_all
  then have ge: "8 * n \<le> 8 * prod_list (filter (\<lambda>d. d \<noteq> 0) (n # s))"
    using n0 by simp
  from r have "8 * prod_list (filter (\<lambda>d. d \<noteq> 0) (n # s)) \<le> maxint"
    by (simp add: representable_def)
  with ge big show False by linarith
qed

lemma create_for_unrepresentable:
  assumes "n < 0 \<or> maxint < 8 * n"
  shows "\<exists>e. create_maximum_activation_for get_dims x n d = Inl e"
proof (cases "case d of None \<Rightarrow> get_dims x | Some d' \<Rightarrow> d'")
  case (Integral k)
  then show ?thesis using not_representable[OF assms, of "[k]"]
    by (simp add: create_maximum_activation_for_def zeros_def)
next
  case (DimsTuple ds)
  show ?thesis
  proof (cases ds)
    case Nil
    then show ?thesis using DimsTuple by (simp add: create_maximum_activation_for_def)
  next
    case (Cons d0 t)
    then show ?thesis using DimsTuple not_representable[OF assms, of "[d0, 3]"]
      by (simp add: create_maximum_activation_for_def zeros_def)
  qed
qed

lemma apply_index_argmax_last_axis:
  assumes "shape fmax = [b, u, k]" "0 < k"
  shows "\<exists>am t m. argmax fmax 2 = Inr am \<and> apply_index fmax am 2 = Inr t \<and>
     tmax_axis fmax 2 = Inr m \<and> shape t = [b, u] \<and> shape m = [b, u] \<and>
     (\<forall>i<b. \<forall>j<u. item t [i, j] = item m [i, j])"
proof -
  let ?l = "\<lambda>i j. map (\<lambda>l. item fmax [i, j, l]) [0..<k]"
  obtain am where am: "argmax fmax 2 = Inr am" "shape am = [b, u]"
      "\<And>i j. item am [i, j] = int (argmax_list (?l i j))"
    using argmax_3_last[OF assms] by blast
  have ne: "\<And>i j. ?l i j \<noteq> []" using assms(2) by simp
  have amr: "\<And>i j. i < b \<Longrightarrow> j < u \<Longrightarrow> 0 \<le> item am [i, j] \<and> item am [i, j] < int k"
    using argmax_list_props(1)[OF ne] by (simp add: am(3))
  obtain t where t: "apply_index fmax am 2 = Inr t" "shape t = [b, u]"
      "\<And>i j. i < b \<Longrightarrow> j < u \<Longrightarrow> item t [i, j] = item fmax [i, j, nat (item am [i, j])]"
    using apply_index_3_last[OF assms(1) am(2) amr] by blast
  define m where "m = Tensor [b, u] (\<lambda>idx. max_list (lane fmax 2 idx))"
  have "\<not> ndim fmax \<le> 2" "shape fmax ! 2 = k" "drop_axis 2 (shape fmax) = [b, u]"
    using assms by (simp_all add: ndim_def drop_axis_def numeral_2_eq_2 numeral_3_eq_3)
  then have tm: "tmax_axis fmax 2 = Inr m"
    using assms(2) by (simp add: tmax_axis_def m_def)
  have "\<And>i j. i < b \<Longrightarrow> j < u \<Longrightarrow> item t [i, j] = item m [i, j]"
  proof -
    fix i j assume ij: "i < b" "j < u"
    have "item t [i, j] = ?l i j ! argmax_list (?l i j)"
      using argmax_list_props(1)[OF ne, of i j] by (simp add: t(3) ij am(3))
    also have "\<dots> = max_list (?l i j)" by (rule argmax_list_props(2)[OF ne])
    finally show "item t [i, j] = item m [i, j]"
      by (simp add: m_def lane_2[OF assms(1)])
  qed
  then show ?thesis using am(1) t(1,2) tm by (auto simp: m_def)
qed











lemma cargsort_column:
  assumes ok: "argsort_ok argsort" and sh: "shape cmax = [m, u]" and n: "n \<le> m"
  shows "\<exists>cs. cargsort argsort cmax (int n) = Inr cs \<and> shape cs = [n, u] \<and>
     (\<forall>j<u. map nat (column cs j) = ranking argsort n (column cmax j))"
proof -
  obtain cs where cs: "cargsort argsort cmax (int n) = Inr cs" "shape cs = [n, u]"
     "\<And>i j. i < n \<Longrightarrow> j < u \<Longrightarrow> item cs [i, j] = int (argsort (map uminus (column cmax j)) ! i)"
    using cargsort_2[OF ok sh n] by blast
  have "\<And>j. j < u \<Longrightarrow> map nat (column cs j) = ranking argsort n (column cmax j)"
    by (rule nth_equalityI)
       (simp_all add: ranking_length[OF ok] sh n cs(2) nth_column cs(3) ranking_nth)
  then show ?thesis using cs(1,2) by blast
qed










lemma length_swap [simp]: "length (swap i j a) = length a"
  by (simp add: swap_def)

lemma mset_swap_qs: "i < length a \<Longrightarrow> j < length a \<Longrightarrow> mset (swap i j a) = mset a"
  unfolding swap_def by (metis mset_swap)

lemma nth_swap_qs:
  "i < length a \<Longrightarrow> j < length a \<Longrightarrow> m < length a \<Longrightarrow>
   swap i j a ! m = (if m = j then a ! i else if m = i then a ! j else a ! m)"
  by (simp add: swap_def nth_list_update)

lemma scan_up_gt: "i < scan_up v vp a i"
  by (induction v vp a i rule: scan_up.induct) (subst scan_up.simps, auto)

lemma scan_up_le:
  "i < s \<Longrightarrow> s < length a \<Longrightarrow> \<not> v (a ! s) < vp \<Longrightarrow> scan_up v vp a i \<le> s"
proof (induction v vp a i rule: scan_up.induct)
  case (1 v vp a i)
  show ?case
  proof (cases "Suc i < length a \<and> v (a ! Suc i) < vp")
    case True
    with "1.prems" have "Suc i \<noteq> s" by auto
    with "1.prems" have "Suc i < s" by simp
    from "1.IH"[OF True this "1.prems"(2,3)] True show ?thesis
      by (subst scan_up.simps) simp
  next
    case False
    with "1.prems" show ?thesis by (subst scan_up.simps) auto
  qed
qed

lemma scan_up_skipped: "i < m \<Longrightarrow> m < scan_up v vp a i \<Longrightarrow> v (a ! m) < vp"
proof (induction v vp a i rule: scan_up.induct)
  case (1 v vp a i)
  show ?case
  proof (cases "Suc i < length a \<and> v (a ! Suc i) < vp")
    case True
    then have eq: "scan_up v vp a i = scan_up v vp a (Suc i)" by (subst scan_up.simps) simp
    show ?thesis
    proof (cases "m = Suc i")
      case True with \<open>Suc i < length a \<and> v (a ! Suc i) < vp\<close> show ?thesis by simp
    next
      case False
      with "1.prems" have "Suc i < m" by simp
      from "1.IH"[OF True this] "1.prems"(2) eq show ?thesis by simp
    qed
  next
    case False
    then have "scan_up v vp a i = Suc i" by (subst scan_up.simps) auto
    with "1.prems" show ?thesis by simp
  qed
qed

lemma scan_up_stop: "scan_up v vp a i < length a \<Longrightarrow> \<not> v (a ! scan_up v vp a i) < vp"
proof (induction v vp a i rule: scan_up.induct)
  case (1 v vp a i)
  show ?case
  proof (cases "Suc i < length a \<and> v (a ! Suc i) < vp")
    case True
    then have eq: "scan_up v vp a i = scan_up v vp a (Suc i)" by (subst scan_up.simps) simp
    from "1.IH"[OF True] "1.prems" show ?thesis by (simp add: eq)
  next
    case False
    then have eq: "scan_up v vp a i = Suc i" by (subst scan_up.simps) auto
    with "1.prems" False show ?thesis by auto
  qed
qed

lemma scan_down_le: "scan_down v vp a j \<le> j - 1"
  by (induction v vp a j rule: scan_down.induct) (subst scan_down.simps, auto)

lemma scan_down_skipped: "scan_down v vp a j < m \<Longrightarrow> m < j \<Longrightarrow> vp < v (a ! m)"
proof (induction v vp a j rule: scan_down.induct)
  case (1 v vp a j)
  show ?case
  proof (cases "0 < j - 1 \<and> vp < v (a ! (j - 1))")
    case True
    then have eq: "scan_down v vp a j = scan_down v vp a (j - 1)" by (subst scan_down.simps) simp
    show ?thesis
    proof (cases "m = j - 1")
      case True with \<open>0 < j - 1 \<and> vp < v (a ! (j - 1))\<close> show ?thesis by simp
    next
      case False
      with "1.prems" have "m < j - 1" by simp
      from "1.IH"[OF True _ this] "1.prems"(1) eq show ?thesis by simp
    qed
  next
    case False
    then have "scan_down v vp a j = j - 1" by (subst scan_down.simps) auto
    with "1.prems" show ?thesis by simp
  qed
qed

lemma scan_down_stop: "0 < scan_down v vp a j \<Longrightarrow> \<not> vp < v (a ! scan_down v vp a j)"
proof (induction v vp a j rule: scan_down.induct)
  case (1 v vp a j)
  show ?case
  proof (cases "0 < j - 1 \<and> vp < v (a ! (j - 1))")
    case True
    then have eq: "scan_down v vp a j = scan_down v vp a (j - 1)" by (subst scan_down.simps) simp
    from "1.IH"[OF True] "1.prems" show ?thesis by (simp add: eq)
  next
    case False
    then have eq: "scan_down v vp a j = j - 1" by (subst scan_down.simps) auto
    with "1.prems" False show ?thesis by auto
  qed
qed

lemma part_loop_post:
  assumes "i < j" "j < length a"
    and "\<forall>m\<le>i. v (a ! m) \<le> vp"
    and "\<forall>m. j \<le> m \<and> m < length a \<longrightarrow> vp \<le> v (a ! m)"
    and "part_loop v vp a i j = (a', p)"
  shows "mset a' = mset a \<and> length a' = length a \<and> i < p \<and> p \<le> j
         \<and> (\<forall>m<p. v (a' ! m) \<le> vp)
         \<and> (\<forall>m. p \<le> m \<and> m < length a \<longrightarrow> vp \<le> v (a' ! m))
         \<and> (\<forall>m. j \<le> m \<longrightarrow> a' ! m = a ! m)"
  using assms
proof (induction v vp a i j rule: part_loop.induct)
  case (1 v vp a i j)
  define i' where "i' = scan_up v vp a i"
  define j' where "j' = scan_down v vp a j"
  have sj: "\<not> v (a ! j) < vp" using "1.prems"(2,4) by (simp add: not_less)
  have i'_gt: "i < i'" unfolding i'_def by (rule scan_up_gt)
  have i'_le: "i' \<le> j" unfolding i'_def using "1.prems"(1,2) sj by (rule scan_up_le)
  have j'_lt: "j' < j" using scan_down_le[of v vp a j] "1.prems"(1) by (simp add: j'_def)
  have up_skip: "v (a ! m) < vp" if "i < m" "m < i'" for m
    using that scan_up_skipped[of i m v vp a] by (simp add: i'_def)
  have up_stop: "vp \<le> v (a ! i')"
    using scan_up_stop[of v vp a i] i'_le "1.prems"(2) by (simp add: i'_def not_less)
  have down_skip: "vp < v (a ! m)" if "j' < m" "m < j" for m
    using that scan_down_skipped[of v vp a j m] by (simp add: j'_def)
  have down_stop: "v (a ! j') \<le> vp"
  proof (cases "0 < j'")
    case True
    then show ?thesis using scan_down_stop[of v vp a j] by (simp add: j'_def not_less)
  next
    case False
    then show ?thesis using "1.prems"(3) by simp
  qed
  show ?case
  proof (cases "j' \<le> i'")
    case True
    then have "part_loop v vp a i j = (a, i')"
      by (subst part_loop.simps) (simp add: Let_def i'_def j'_def)
    with "1.prems"(5) have eq: "a' = a" "p = i'" by simp_all
    have A: "v (a ! m) \<le> vp" if "m < i'" for m
    proof (cases "m \<le> i")
      case True then show ?thesis using "1.prems"(3) by simp
    next
      case False then show ?thesis using up_skip[of m] that by simp
    qed
    have B: "vp \<le> v (a ! m)" if "i' \<le> m" "m < length a" for m
    proof (cases "j \<le> m")
      case True then show ?thesis using "1.prems"(4) that by simp
    next
      case F: False
      show ?thesis
      proof (cases "j' < m")
        case True then show ?thesis using down_skip[of m] F by simp
      next
        case False
        with that \<open>j' \<le> i'\<close> have "m = i'" by simp
        then show ?thesis using up_stop by simp
      qed
    qed
    show ?thesis using i'_gt i'_le A B by (simp add: eq)
  next
    case False
    then have lt: "i' < j'" by simp
    have eq: "part_loop v vp a i j = part_loop v vp (swap i' j' a) i' j'"
      using False by (subst part_loop.simps) (simp add: Let_def i'_def j'_def)
    have bi: "i' < length a" "j' < length a" using lt j'_lt "1.prems"(2) by simp_all
    have P3: "\<forall>m\<le>i'. v (swap i' j' a ! m) \<le> vp"
    proof (intro allI impI)
      fix m assume "m \<le> i'"
      then have ml: "m < length a" using bi by simp
      show "v (swap i' j' a ! m) \<le> vp"
      proof (cases "m = i'")
        case True then show ?thesis using down_stop bi lt by (simp add: nth_swap_qs)
      next
        case F: False
        with \<open>m \<le> i'\<close> have mi: "m < i'" by simp
        have "v (a ! m) \<le> vp"
        proof (cases "m \<le> i")
          case True then show ?thesis using "1.prems"(3) by simp
        next
          case False then show ?thesis using up_skip[of m] mi by simp
        qed
        then show ?thesis using bi ml mi lt by (simp add: nth_swap_qs)
      qed
    qed
    have P4: "\<forall>m. j' \<le> m \<and> m < length (swap i' j' a) \<longrightarrow> vp \<le> v (swap i' j' a ! m)"
    proof (intro allI impI)
      fix m assume m: "j' \<le> m \<and> m < length (swap i' j' a)"
      then have ml: "m < length a" by simp
      show "vp \<le> v (swap i' j' a ! m)"
      proof (cases "m = j'")
        case True then show ?thesis using up_stop bi lt by (simp add: nth_swap_qs)
      next
        case F: False
        with m have mj: "j' < m" by simp
        have "vp \<le> v (a ! m)"
        proof (cases "j \<le> m")
          case True then show ?thesis using "1.prems"(4) ml by simp
        next
          case False then show ?thesis using down_skip[of m] mj by simp
        qed
        then show ?thesis using bi ml mj lt by (simp add: nth_swap_qs)
      qed
    qed
    have P5: "part_loop v vp (swap i' j' a) i' j' = (a', p)" using "1.prems"(5) eq by simp
    have J: "j' < length (swap i' j' a)" using bi by simp
    note IH = "1.IH"[OF i'_def j'_def False lt J P3 P4 P5]
    have last: "a' ! m = a ! m" if "j \<le> m" for m
    proof (cases "m < length a")
      case True
      then show ?thesis using IH that j'_lt lt bi by (simp add: nth_swap_qs)
    next
      case False
      then have "\<not> m < length a'" using IH by simp
      have "a' ! m = swap i' j' a ! m" using IH that j'_lt by simp
      also have "\<dots> = a ! m" using that j'_lt lt by (simp add: swap_def)
      finally show ?thesis .
    qed
    show ?thesis using IH i'_gt j'_lt lt last bi by (simp add: mset_swap_qs)
  qed
qed

lemma length_cswap [simp]: "length (cswap v i j a) = length a"
  by (simp add: cswap_def)

lemma mset_cswap: "i < length a \<Longrightarrow> j < length a \<Longrightarrow> mset (cswap v i j a) = mset a"
  by (simp add: cswap_def mset_swap_qs)

lemma nth_cswap:
  "i < length a \<Longrightarrow> j < length a \<Longrightarrow> k < length a \<Longrightarrow>
   cswap v i j a ! k = (if v (a ! i) < v (a ! j)
      then (if k = j then a ! i else if k = i then a ! j else a ! k) else a ! k)"
  by (simp add: cswap_def nth_swap_qs)

lemma median3_order:
  assumes "0 < m" "m < r" "r < length a"
  shows "v (cswap v m 0 (cswap v r m (cswap v m 0 a)) ! 0)
           \<le> v (cswap v m 0 (cswap v r m (cswap v m 0 a)) ! m)
       \<and> v (cswap v m 0 (cswap v r m (cswap v m 0 a)) ! m)
           \<le> v (cswap v m 0 (cswap v r m (cswap v m 0 a)) ! r)"
proof -
  have l: "0 < length a" "m < length a" "r < length a" "m \<noteq> 0" "r \<noteq> m" "r \<noteq> 0"
    using assms by auto
  show ?thesis using l by (simp add: nth_cswap)
qed

lemma qs_partition_post:
  assumes len: "3 \<le> length a" and res: "qs_partition v a = (a', p)"
  shows "mset a' = mset a \<and> p < length a
         \<and> (\<forall>m<p. v (a' ! m) \<le> v (a' ! p))
         \<and> (\<forall>m. p < m \<and> m < length a \<longrightarrow> v (a' ! p) \<le> v (a' ! m))"
proof -
  define r where "r = length a - 1"
  define m where "m = r div 2"
  define a3 where "a3 = cswap v m 0 (cswap v r m (cswap v m 0 a))"
  define a4 where "a4 = swap m (r - 1) a3"
  define vp where "vp = v (a3 ! m)"
  have r: "2 \<le> r" "r < length a" "0 < m" "m < r" using len by (auto simp: r_def m_def)
  have len3: "length a3 = length a" by (simp add: a3_def)
  have ml: "m < length a" "0 < length a" using r by auto
  have ms3: "mset a3 = mset a" using r ml by (simp add: a3_def mset_cswap)
  have ord: "v (a3 ! 0) \<le> vp" "vp \<le> v (a3 ! r)"
    using median3_order[OF r(3,4,2), of v] by (simp_all add: a3_def vp_def)
  have len4: "length a4 = length a" by (simp add: a4_def len3)
  have ms4: "mset a4 = mset a" using r len3 ms3 by (simp add: a4_def mset_swap_qs)
  have b: "m < length a3" "r - 1 < length a3" "0 < length a3" "r < length a3"
    "m \<noteq> 0" "r - 1 \<noteq> 0" "r \<noteq> m" "r \<noteq> r - 1"
    using r len3 by auto
  have a4_0: "a4 ! 0 = a3 ! 0" using b by (simp add: a4_def nth_swap_qs)
  have a4_r: "a4 ! r = a3 ! r" using b by (simp add: a4_def nth_swap_qs)
  have a4_p: "a4 ! (r - 1) = a3 ! m" using b by (simp add: a4_def nth_swap_qs)
  obtain a5 q where loop: "part_loop v vp a4 0 (r - 1) = (a5, q)" by (cases "part_loop v vp a4 0 (r - 1)")
  have eq: "qs_partition v a = (swap q (r - 1) a5, q)"
    using loop unfolding qs_partition_def Let_def a4_def vp_def a3_def m_def r_def by simp
  have I3: "\<forall>k\<le>0. v (a4 ! k) \<le> vp" using ord a4_0 by simp
  have I4: "\<forall>k. r - 1 \<le> k \<and> k < length a4 \<longrightarrow> vp \<le> v (a4 ! k)"
  proof (intro allI impI)
    fix k assume "r - 1 \<le> k \<and> k < length a4"
    then have "k = r - 1 \<or> k = r" using len4 r by (auto simp: r_def)
    then show "vp \<le> v (a4 ! k)" using a4_p a4_r ord by (auto simp: vp_def)
  qed
  have "0 < r - 1" "r - 1 < length a4" using r len4 by simp_all
  note post = part_loop_post[OF this I3 I4 loop]
  have q: "0 < q" "q \<le> r - 1" "length a5 = length a" using post len4 by simp_all
  have a5_p: "v (a5 ! (r - 1)) = vp" using post a4_p by (simp add: vp_def)
  from res eq have a': "a' = swap q (r - 1) a5" and p: "p = q" by auto
  have ql: "q < length a5" "r - 1 < length a5" using q r by simp_all
  have "mset a' = mset a" using post ms4 ql by (simp add: a' mset_swap_qs)
  moreover have "p < length a" using q r p by simp
  moreover have piv: "v (a' ! p) = vp" using ql a5_p by (simp add: a' p nth_swap_qs)
  moreover have "v (a' ! k) \<le> vp" if "k < p" for k
    using that post ql q by (simp add: a' p nth_swap_qs)
  moreover have "vp \<le> v (a' ! k)" if "p < k" "k < length a" for k
    using that post ql q len4 by (simp add: a' p nth_swap_qs)
  ultimately show ?thesis by simp
qed

lemma shift_in_insort: "shift_in v x rs = insort_key (\<lambda>i. - v i) x rs"
  by (induction rs) auto

lemma insertion_sort_sort_key: "insertion_sort v a = sort_key v a"
proof -
  let ?g = "\<lambda>i. - v i"
  have "fold (shift_in v) a [] = sort_key ?g (rev a)"
    by (simp add: sort_key_def foldr_conv_fold shift_in_insort[abs_def])
  then have eq: "insertion_sort v a = rev (sort_key ?g (rev a))"
    by (simp add: insertion_sort_def)
  have "sort_key v a = rev (sort_key ?g (rev a))"
  proof (rule properties_for_sort_key)
    show "mset (rev (sort_key ?g (rev a))) = mset a" by simp
    show "sorted (map v (rev (sort_key ?g (rev a))))"
    proof -
      have "sorted (map ?g (sort_key ?g (rev a)))" by simp
      then have "sorted_wrt (\<lambda>x y. v y \<le> v x) (sort_key ?g (rev a))"
        by (simp add: sorted_map)
      then show ?thesis by (simp add: rev_map sorted_wrt_map sorted_wrt_rev)
    qed
    fix k
    have "filter (\<lambda>x. v k = v x) (sort_key ?g (rev a)) = filter (\<lambda>x. ?g x = ?g k) (sort_key ?g (rev a))"
      by (rule filter_cong) auto
    also have "\<dots> = filter (\<lambda>x. ?g x = ?g k) (rev a)" by (rule sort_key_stable)
    also have "\<dots> = filter (\<lambda>x. v k = v x) (rev a)" by (rule filter_cong) auto
    finally show "filter (\<lambda>x. v k = v x) (rev (sort_key ?g (rev a))) = filter (\<lambda>x. v k = v x) a"
      by (simp add: rev_filter[symmetric])
  qed
  then show ?thesis by (simp add: eq)
qed

lemma qsort_mset: "mset (qsort v a) = mset a"
proof (induction v a rule: qsort.induct)
  case (1 v a)
  show ?case
  proof (cases "16 < length a - 1")
    case True
    obtain a' p where part: "qs_partition v a = (a', p)" by (cases "qs_partition v a")
    from True have "3 \<le> length a" by simp
    note post = qs_partition_post[OF this part]
    have eq: "qsort v a = qsort v (take p a') @ [a' ! p] @ qsort v (drop (Suc p) a')"
      using True part by (subst qsort.simps) simp
    have la: "length a' = length a" using post by (metis size_mset)
    have "mset (qsort v a) = mset (take p a') + {#a' ! p#} + mset (drop (Suc p) a')"
      using "1.IH"(1)[OF True part[symmetric]] "1.IH"(2)[OF True part[symmetric]]
      by (simp add: eq)
    also have "\<dots> = mset (take p a' @ a' ! p # drop (Suc p) a')" by simp
    also have "take p a' @ a' ! p # drop (Suc p) a' = a'"
      using post la by (simp add: id_take_nth_drop[symmetric])
    finally show ?thesis using post by simp
  next
    case False
    then show ?thesis by (subst qsort.simps) (simp add: insertion_sort_sort_key)
  qed
qed

lemma qsort_sorted: "sorted (map v (qsort v a))"
proof (induction v a rule: qsort.induct)
  case (1 v a)
  show ?case
  proof (cases "16 < length a - 1")
    case True
    obtain a' p where part: "qs_partition v a = (a', p)" by (cases "qs_partition v a")
    from True have "3 \<le> length a" by simp
    note post = qs_partition_post[OF this part]
    have eq: "qsort v a = qsort v (take p a') @ [a' ! p] @ qsort v (drop (Suc p) a')"
      using True part by (subst qsort.simps) simp
    have la: "length a' = length a" using post by (metis size_mset)
    have L: "v x \<le> v (a' ! p)" if "x \<in> set (qsort v (take p a'))" for x
    proof -
      from that have "x \<in> set (take p a')" by (metis qsort_mset set_mset_mset)
      then obtain k where "k < p" "x = a' ! k" using post la
        by (auto simp: in_set_conv_nth)
      then show ?thesis using post by simp
    qed
    have R: "v (a' ! p) \<le> v x" if "x \<in> set (qsort v (drop (Suc p) a'))" for x
    proof -
      from that have "x \<in> set (drop (Suc p) a')" by (metis qsort_mset set_mset_mset)
      then obtain k where "k < length a' - Suc p" "x = a' ! (Suc p + k)"
        by (auto simp: in_set_conv_nth)
      then show ?thesis using post la by simp
    qed
    have LR: "v x \<le> v y"
      if "x \<in> set (qsort v (take p a'))" "y \<in> set (qsort v (drop (Suc p) a'))" for x y
      using L[OF that(1)] R[OF that(2)] by simp
    show ?thesis
      using "1.IH"(1)[OF True part[symmetric]] "1.IH"(2)[OF True part[symmetric]] L R LR
      by (auto simp: eq sorted_append)
  next
    case False
    then show ?thesis by (subst qsort.simps) (simp add: insertion_sort_sort_key)
  qed
qed


lemma numpy_argsort_ok: "argsort_ok numpy_argsort"
  by (simp add: argsort_ok_def numpy_argsort_def qsort_mset qsort_sorted)


lemma dense_source_append:
  "dense_source (h1 @ h2) u q e \<longleftrightarrow> dense_source h1 u q e \<or> dense_source h2 u q e"
  by (auto simp: dense_source_def list_ex_iff)

lemma spatial_source_append:
  "spatial_source (h1 @ h2) u q e r c \<longleftrightarrow> spatial_source h1 u q e r c \<or> spatial_source h2 u q e r c"
  by (auto simp: spatial_source_def list_ex_iff)

lemma slot_traceable_append:
  "slot_traceable h1 rec i u \<Longrightarrow> slot_traceable (h1 @ h2) rec i u"
  by (auto simp: slot_traceable_def dense_source_append spatial_source_append split: option.splits)

lemma dense_step:
  assumes ok: "argsort_ok argsort" and rec: "dense_record rec n u"
    and tr: "\<And>i j. i < n \<Longrightarrow> j < u \<Longrightarrow> slot_traceable H rec i j"
    and res: "create_maximum_activation_update argsort out rec si (int n) = Inr upd"
  shows "dense_record (apply_updates rec upd) n u \<and>
     (\<forall>i<n. \<forall>j<u. slot_traceable (H @ [(si, out)]) (apply_updates rec upd) i j)"
proof -
  obtain b where out: "shape out = [b, u]"
    using dense_update_shape[OF rec res] by blast
  have q: "shape (quantity rec) = [n, u]" and ix: "shape (index rec) = [n, u]"
    and sn: "snapshot rec = None" and d: "length (dims rec) = 1"
    using rec by (simp_all add: dense_record_def)
  from update_dense[OF ok rec out, of si] res
  have u: "shape (newmax upd) = [n, u]" "shape (newind upd) = [n, u]" "newsnap upd = None"
    and cols: "\<And>j. j < u \<Longrightarrow> column (newmax upd) j =
          map ((!) (column (quantity rec) j @ column out j))
            (ranking argsort n (column (quantity rec) j @ column out j)) \<and>
        column (newind upd) j =
          map ((!) (column (index rec) j @ map (\<lambda>i. int i + si) [0..<b]))
            (ranking argsort n (column (quantity rec) j @ column out j))"
    by auto
  let ?rec' = "apply_updates rec upd"
  have r': "quantity ?rec' = newmax upd" "index ?rec' = newind upd" "snapshot ?rec' = None"
      "dims ?rec' = dims rec"
    by (simp_all add: apply_updates_def u sn)
  have d': "dense_record ?rec' n u"
    by (simp add: dense_record_def r' u d)
  have "\<And>i j. i < n \<Longrightarrow> j < u \<Longrightarrow> slot_traceable (H @ [(si, out)]) ?rec' i j"
  proof -
    fix i j assume i: "i < n" and j: "j < u"
    let ?cv = "column (quantity rec) j @ column out j"
    let ?p = "ranking argsort n ?cv ! i"
    have len: "length (ranking argsort n ?cv) = n"
      by (rule ranking_length[OF ok]) (simp add: q out)
    have p: "?p < n + b"
      using ranking_set[OF ok, of ?p n ?cv] i len by (simp add: q out)
    have "column (newmax upd) j ! i = ?cv ! ?p" "column (newind upd) j ! i =
        (column (index rec) j @ map (\<lambda>i. int i + si) [0..<b]) ! ?p"
      using cols[OF j] i len by simp_all
    then have v: "item (newmax upd) [i, j] = ?cv ! ?p"
       "item (newind upd) [i, j] = (column (index rec) j @ map (\<lambda>i. int i + si) [0..<b]) ! ?p"
      using i by (simp_all add: nth_column u)
    show "slot_traceable (H @ [(si, out)]) ?rec' i j"
    proof (cases "?p < n")
      case True
      then have "item (newmax upd) [i, j] = item (quantity rec) [?p, j]"
          "item (newind upd) [i, j] = item (index rec) [?p, j]"
        using v by (simp_all add: nth_append q ix nth_column)
      moreover have "slot_traceable (H @ [(si, out)]) rec ?p j"
        by (rule slot_traceable_append[OF tr[OF True j]])
      ultimately show ?thesis
        by (simp add: slot_traceable_def r' sn)
    next
      case False
      then have pb: "?p - n < b" using p by simp
      have "item (newmax upd) [i, j] = item out [?p - n, j]"
          "item (newind upd) [i, j] = si + int (?p - n)"
        using v False pb by (simp_all add: nth_append q ix nth_column out)
      then have "dense_source [(si, out)] j (item (newmax upd) [i, j]) (item (newind upd) [i, j])"
        using pb by (auto simp: dense_source_def list_ex_iff out)
      then show ?thesis
        by (simp add: slot_traceable_def r' dense_source_append)
    qed
  qed
  then show ?thesis using d' by blast
qed

lemma spatial_step:
  assumes ok: "argsort_ok argsort" and rec: "spatial_record rec n u h w"
    and tr: "\<And>i j. i < n \<Longrightarrow> j < u \<Longrightarrow> slot_traceable H rec i j"
    and res: "create_maximum_activation_update argsort out rec si (int n) = Inr upd"
  shows "spatial_record (apply_updates rec upd) n u h w \<and>
     (\<forall>i<n. \<forall>j<u. slot_traceable (H @ [(si, out)]) (apply_updates rec upd) i j)"
proof -
  obtain b where out: "shape out = [b, u, h, w]" and hw: "0 < h * w" and bu: "0 < b" "0 < u"
    using spatial_update_shape[OF rec res] by blast
  have w: "0 < w" using hw by simp
  have q: "shape (quantity rec) = [n, u]" and ix: "shape (index rec) = [n, u, 3]"
    and d: "dims rec = [int u, int h, int w]"
    using rec by (simp_all add: spatial_record_def)
  obtain snap where sn: "snapshot rec = Some snap"
    using rec by (auto simp: spatial_record_def split: option.splits)
  let ?tm = "\<lambda>j. map (\<lambda>i. max_list (feature_map out i j)) [0..<b]"
  from update_spatial[OF ok rec out hw bu, of si] res
  have u: "shape (newmax upd) = [n, u]" "shape (newind upd) = [n, u, 3]"
      "case newsnap upd of None \<Rightarrow> False | Some ns \<Rightarrow> shape ns = [n, u, h, w]"
    and cols: "\<And>j. j < u \<Longrightarrow> column (newmax upd) j =
          map ((!) (column (quantity rec) j @ ?tm j))
            (ranking argsort n (column (quantity rec) j @ ?tm j)) \<and>
        (\<forall>k<3. column3 (newind upd) j k =
          map ((!) (column3 (index rec) j k @ map (location out si j k) [0..<b]))
            (ranking argsort n (column (quantity rec) j @ ?tm j)))"
    by auto
  obtain ns where ns: "newsnap upd = Some ns" "shape ns = [n, u, h, w]"
    using u(3) by (auto split: option.splits)
  let ?rec' = "apply_updates rec upd"
  have r': "quantity ?rec' = newmax upd" "index ?rec' = newind upd" "snapshot ?rec' = Some ns"
      "dims ?rec' = dims rec"
    by (simp_all add: apply_updates_def ns)
  have d': "spatial_record ?rec' n u h w"
    by (simp add: spatial_record_def r' u d ns)
  have "\<And>i j. i < n \<Longrightarrow> j < u \<Longrightarrow> slot_traceable (H @ [(si, out)]) ?rec' i j"
  proof -
    fix i j assume i: "i < n" and j: "j < u"
    let ?cv = "column (quantity rec) j @ ?tm j"
    let ?p = "ranking argsort n ?cv ! i"
    have len: "length (ranking argsort n ?cv) = n"
      by (rule ranking_length[OF ok]) (simp add: q)
    have p: "?p < n + b"
      using ranking_set[OF ok, of ?p n ?cv] i len by (simp add: q)
    have "column (newmax upd) j ! i = ?cv ! ?p"
      using cols[OF j] i len by simp
    then have v: "item (newmax upd) [i, j] = ?cv ! ?p"
      using i by (simp add: nth_column u)
    have vk: "\<And>k. k < 3 \<Longrightarrow> item (newind upd) [i, j, k] =
        (column3 (index rec) j k @ map (location out si j k) [0..<b]) ! ?p"
    proof -
      fix k :: nat assume k: "k < 3"
      have "column3 (newind upd) j k ! i =
        (column3 (index rec) j k @ map (location out si j k) [0..<b]) ! ?p"
        using cols[OF j] k i len by simp
      then show "item (newind upd) [i, j, k] =
        (column3 (index rec) j k @ map (location out si j k) [0..<b]) ! ?p"
        using i by (simp add: nth_column3 u)
    qed
    show "slot_traceable (H @ [(si, out)]) ?rec' i j"
    proof (cases "?p < n")
      case True
      then have "item (newmax upd) [i, j] = item (quantity rec) [?p, j]"
        using v by (simp add: nth_append q nth_column)
      moreover have "\<And>k. k < 3 \<Longrightarrow> item (newind upd) [i, j, k] = item (index rec) [?p, j, k]"
        using vk True by (simp add: nth_append ix nth_column3)
      moreover have "slot_traceable (H @ [(si, out)]) rec ?p j"
        by (rule slot_traceable_append[OF tr[OF True j]])
      ultimately show ?thesis
        by (simp add: slot_traceable_def r' sn)
    next
      case False
      define e where "e = ?p - n"
      have pb: "e < b" using p False by (simp add: e_def)
      define fm where "fm = feature_map out e j"
      define am where "am = argmax_list fm"
      have fml: "length fm = h * w"
        by (simp add: fm_def feature_map_def out numeral_2_eq_2 numeral_3_eq_3)
      then have ne: "fm \<noteq> []" using hw by auto
      have amlt: "am < h * w" using argmax_list_props(1)[OF ne] by (simp add: am_def fml)
      have mv: "max_list fm = item out [e, j, am div w, am mod w]"
        using argmax_list_props(2)[OF ne] amlt
        by (simp add: am_def[symmetric]) (simp add: fm_def feature_map_def out numeral_2_eq_2 numeral_3_eq_3)
      have qv: "item (newmax upd) [i, j] = max_list fm"
        using v False pb by (simp add: nth_append q nth_column e_def fm_def)
      have l0: "item (newind upd) [i, j, 0] = si + int e"
        using vk[of 0] False pb by (simp add: nth_append ix e_def location_def)
      have l1: "item (newind upd) [i, j, 1] = int (am div w)"
        using vk[of 1] False pb
        by (simp add: nth_append ix e_def[symmetric] location_def fm_def[symmetric] am_def[symmetric]
            out numeral_3_eq_3 zdiv_int)
      have l2: "item (newind upd) [i, j, 2] = int (am mod w)"
        using vk[of 2] False pb
        by (simp add: nth_append ix e_def[symmetric] location_def fm_def[symmetric] am_def[symmetric]
            out numeral_3_eq_3 zmod_int)
      have rg: "am div w < h" "am mod w < w"
        using amlt w by (simp_all add: less_mult_imp_div_less)
      have src: "\<And>qv e0 r c. qv = max_list fm \<Longrightarrow> e0 = si + int e \<Longrightarrow> r = int (am div w)
          \<Longrightarrow> c = int (am mod w) \<Longrightarrow> spatial_source [(si, out)] j qv e0 r c"
        unfolding spatial_source_def list_ex_iff
        using pb rg by (auto simp: mv out numeral_2_eq_2 numeral_3_eq_3 fm_def[symmetric] intro!: bexI[of _ e])
      have "spatial_source [(si, out)] j (item (newmax upd) [i, j]) (item (newind upd) [i, j, 0])
          (item (newind upd) [i, j, 1]) (item (newind upd) [i, j, 2])"
        by (rule src[OF qv l0 l1 l2])
      then show ?thesis
        by (simp add: slot_traceable_def r' spatial_source_append)
    qed
  qed
  then show ?thesis using d' by blast
qed

lemma traverse_list_all2:
  "traverse f xs = Inr ys \<Longrightarrow> list_all2 (\<lambda>x y. f x = Inr y) xs ys"
proof (induction xs arbitrary: ys)
  case Nil then show ?case by simp
next
  case (Cons x xs)
  then show ?case by (auto simp: err_bind_Inr_iff)
qed

lemma set_od_set: "set (od_set d k v) \<subseteq> insert (k, v) (set d)"
  by (induction d) (auto split: if_splits)

lemma list_all2_set2: "list_all2 P xs ys \<Longrightarrow> y \<in> set ys \<Longrightarrow> \<exists>x\<in>set xs. P x y"
  by (induction rule: list_all2_induct) auto

lemma set_ordered_dict_fold:
  "set (fold (\<lambda>kv d. od_set d (fst kv) (snd kv)) kvs d0) \<subseteq> set d0 \<union> set kvs"
proof (induction kvs arbitrary: d0)
  case Nil then show ?case by simp
next
  case (Cons kv kvs)
  have "set (fold (\<lambda>kv d. od_set d (fst kv) (snd kv)) kvs (od_set d0 (fst kv) (snd kv)))
      \<subseteq> set (od_set d0 (fst kv) (snd kv)) \<union> set kvs" by (rule Cons.IH)
  then show ?case using set_od_set[of d0 "fst kv" "snd kv"] by auto
qed

lemma set_ordered_dict: "set (ordered_dict kvs) \<subseteq> set kvs"
  using set_ordered_dict_fold[of kvs "[]"] by (simp add: ordered_dict_def)

lemma record_ok_step:
  assumes ok: "argsort_ok argsort" and r: "record_ok n H rec"
    and res: "create_maximum_activation_update argsort out rec si (int n) = Inr upd"
  shows "record_ok n (H @ [(si, out)]) (apply_updates rec upd)"
proof -
  from r obtain u where u: "dense_record rec n u \<or> (\<exists>h w. spatial_record rec n u h w)"
      and tr: "\<And>i j. i < n \<Longrightarrow> j < u \<Longrightarrow> slot_traceable H rec i j"
    by (auto simp: record_ok_def)
  from u show ?thesis
  proof
    assume "dense_record rec n u"
    from dense_step[OF ok this tr res] show ?thesis
      unfolding record_ok_def by blast
  next
    assume "\<exists>h w. spatial_record rec n u h w"
    then obtain h w where "spatial_record rec n u h w" by blast
    from spatial_step[OF ok this tr res] show ?thesis
      unfolding record_ok_def by blast
  qed
qed

lemma record_ok_append: "record_ok n H rec \<Longrightarrow> record_ok n (H @ H') rec"
  unfolding record_ok_def using slot_traceable_append by blast

lemma process_batch_inv:
  assumes ok: "argsort_ok argsort"
    and res: "process_batch argsort b s = Inr s'"
    and tn: "topn s = int n"
    and inv: "\<And>x rec. (x, rec) \<in> set (maximum_activations s) \<Longrightarrow> record_ok n (H x) rec"
  shows "outputs s' = outputs s" "topn s' = topn s"
    "streamindex s' = streamindex s + int (shape (b (hd (outputs s))) ! 0)"
    "\<And>x rec. (x, rec) \<in> set (maximum_activations s')
       \<Longrightarrow> x \<in> fst ` set (maximum_activations s) \<and> record_ok n (H x @ [(streamindex s, b x)]) rec"
proof -
  let ?f = "\<lambda>kv. err_bind
            (create_maximum_activation_update argsort (b (fst kv)) (snd kv)
               (streamindex s) (topn s))
            (\<lambda>u. Inr (fst kv, apply_updates (snd kv) u))"
  from res obtain recs where t: "traverse ?f (maximum_activations s) = Inr recs"
    and rest: "(case outputs s of
            [] \<Rightarrow> Inl IndexError
          | o' # _ \<Rightarrow>
              (case shape (b o') of
                 [] \<Rightarrow> Inl IndexError
               | bb # _ \<Rightarrow> Inr (s\<lparr>maximum_activations := recs,
                                 streamindex := streamindex s + int bb\<rparr>))) = Inr s'"
    unfolding process_batch_def err_bind_Inr_iff by blast
  from rest obtain o' os bb bs where o: "outputs s = o' # os" and sb: "shape (b o') = bb # bs"
     and s': "s' = s\<lparr>maximum_activations := recs, streamindex := streamindex s + int bb\<rparr>"
    by (auto split: list.splits)
  show "outputs s' = outputs s" "topn s' = topn s" by (simp_all add: s')
  show "streamindex s' = streamindex s + int (shape (b (hd (outputs s))) ! 0)"
    by (simp add: s' o sb)
  fix x rec assume "(x, rec) \<in> set (maximum_activations s')"
  then have m: "(x, rec) \<in> set recs" by (simp add: s')
  from list_all2_set2[OF traverse_list_all2[OF t] m]
  obtain kv where kv: "kv \<in> set (maximum_activations s)" "?f kv = Inr (x, rec)"
    by blast
  then obtain upd where upd: "create_maximum_activation_update argsort (b (fst kv)) (snd kv)
               (streamindex s) (int n) = Inr upd" "x = fst kv" "rec = apply_updates (snd kv) upd"
    by (auto simp: err_bind_Inr_iff tn)
  have "record_ok n (H (fst kv)) (snd kv)" using inv[of "fst kv" "snd kv"] kv(1) by simp
  from record_ok_step[OF ok this upd(1)] kv(1)
  show "x \<in> fst ` set (maximum_activations s) \<and> record_ok n (H x @ [(streamindex s, b x)]) rec"
    by (auto simp: upd(2,3))
qed

lemma process_batches_inv:
  assumes ok: "argsort_ok argsort"
  shows "process_batches argsort bs s = Inr s' \<Longrightarrow> topn s = int n \<Longrightarrow>
    (\<And>x rec. (x, rec) \<in> set (maximum_activations s) \<Longrightarrow> record_ok n (H x) rec) \<Longrightarrow>
    outputs s' = outputs s \<and> topn s' = topn s \<and>
    streamindex s' = streamindex s + sum_list (map (\<lambda>b. int (shape (b (hd (outputs s))) ! 0)) bs) \<and>
    (\<forall>x rec. (x, rec) \<in> set (maximum_activations s') \<longrightarrow>
       x \<in> fst ` set (maximum_activations s) \<and>
       record_ok n (H x @ history (hd (outputs s)) x (streamindex s) bs) rec)"
proof (induction bs arbitrary: s H)
  case Nil
  then show ?case by (auto simp: rev_image_eqI)
next
  case (Cons b bs)
  from Cons.prems(1) obtain s1 where s1: "process_batch argsort b s = Inr s1"
      "process_batches argsort bs s1 = Inr s'"
    by (auto simp: err_bind_Inr_iff)
  note pb = process_batch_inv[OF ok s1(1) Cons.prems(2), of H, OF Cons.prems(3)]
  have tn1: "topn s1 = int n" using pb(2) Cons.prems(2) by simp
  have inv1: "\<And>x rec. (x, rec) \<in> set (maximum_activations s1)
      \<Longrightarrow> record_ok n (H x @ [(streamindex s, b x)]) rec"
    using pb(4) by blast
  from Cons.IH[OF s1(2) tn1, of "\<lambda>x. H x @ [(streamindex s, b x)]", OF inv1]
  have ih: "outputs s' = outputs s1" "topn s' = topn s1"
     "streamindex s' = streamindex s1 + sum_list (map (\<lambda>b. int (shape (b (hd (outputs s1))) ! 0)) bs)"
     "\<And>x rec. (x, rec) \<in> set (maximum_activations s') \<Longrightarrow>
       x \<in> fst ` set (maximum_activations s1) \<and>
       record_ok n ((H x @ [(streamindex s, b x)]) @ history (hd (outputs s1)) x (streamindex s1) bs) rec"
    by blast+
  have keys: "fst ` set (maximum_activations s1) \<subseteq> fst ` set (maximum_activations s)"
    using pb(4) by force
  show ?case
    using ih keys by (auto simp: pb(1,2,3))
qed

lemma create_for_record_ok:
  assumes c: "create_maximum_activation_for get_dims x (int n) d = Inr rec"
    and s: "dense_or_spatial_dims (case d of None \<Rightarrow> get_dims x | Some d' \<Rightarrow> d')"
  shows "record_ok n [] rec"
proof (cases "case d of None \<Rightarrow> get_dims x | Some d' \<Rightarrow> d'")
  case (Integral k)
  with c have k: "0 \<le> k" and rec: "rec = \<lparr>dims = [k], quantity = Tensor [n, nat k] (\<lambda>_. 0),
      index = Tensor [n, nat k] (\<lambda>_. 0), snapshot = None\<rparr>"
    by (auto simp: create_maximum_activation_for_def zeros_def representable_def err_bind_Inr_iff
        split: if_splits)
  have "dense_record rec n (nat k)" by (simp add: rec dense_record_def)
  moreover have "\<forall>i<n. \<forall>j<nat k. slot_traceable [] rec i j"
    by (simp add: rec slot_traceable_def)
  ultimately show ?thesis unfolding record_ok_def by blast
next
  case (DimsTuple t)
  with s obtain a b c' where t: "t = [a, b, c']"
    by (auto simp: dense_or_spatial_dims_def length_Suc_conv numeral_3_eq_3)
  from c DimsTuple have k: "0 \<le> a" "0 \<le> b" "0 \<le> c'"
    and rec: "rec = \<lparr>dims = [a, b, c'], quantity = Tensor [n, nat a] (\<lambda>_. 0),
      index = Tensor [n, nat a, 3] (\<lambda>_. 0),
      snapshot = Some (Tensor [n, nat a, nat b, nat c'] (\<lambda>_. 0))\<rparr>"
    by (auto simp: t create_maximum_activation_for_def zeros_def representable_def err_bind_Inr_iff
        split: if_splits)
  have "spatial_record rec n (nat a) (nat b) (nat c')" using k by (simp add: rec spatial_record_def)
  moreover have "\<forall>i<n. \<forall>j<nat a. slot_traceable [] rec i j"
    by (simp add: rec slot_traceable_def)
  ultimately show ?thesis unfolding record_ok_def by blast
qed

lemma init_inv:
  assumes init: "MaximumActivationSearch_init get_dims outs ds (int n) = Inr s0"
    and sup: "\<forall>x\<in>set outs. dense_or_spatial_dims (case ds x of None \<Rightarrow> get_dims x | Some d \<Rightarrow> d)"
  shows "outputs s0 = outs" "outs \<noteq> []" "topn s0 = int n" "streamindex s0 = 0"
    "\<And>x rec. (x, rec) \<in> set (maximum_activations s0) \<Longrightarrow> x \<in> set outs \<and> record_ok n [] rec"
proof -
  let ?f = "\<lambda>o'. err_bind (create_maximum_activation_for get_dims o' (int n) (ds o'))
                         (\<lambda>r. Inr (o', r))"
  from init obtain pairs where t: "traverse ?f outs = Inr pairs"
    and rest: "(case outs of
            [] \<Rightarrow> Inl IndexError
          | _ # _ \<Rightarrow> Inr \<lparr>outputs = outs, topn = int n, streamindex = 0,
                        maximum_activations = ordered_dict pairs\<rparr>) = Inr s0"
    unfolding MaximumActivationSearch_init_def err_bind_Inr_iff by blast
  from rest have ne: "outs \<noteq> []" and s0: "s0 = \<lparr>outputs = outs, topn = int n, streamindex = 0,
                        maximum_activations = ordered_dict pairs\<rparr>"
    by (auto split: list.splits)
  show "outputs s0 = outs" "outs \<noteq> []" "topn s0 = int n" "streamindex s0 = 0"
    using ne by (simp_all add: s0)
  fix x rec assume "(x, rec) \<in> set (maximum_activations s0)"
  then have "(x, rec) \<in> set pairs" using set_ordered_dict[of pairs] by (auto simp: s0)
  from list_all2_set2[OF traverse_list_all2[OF t] this]
  obtain o' where o': "o' \<in> set outs" "?f o' = Inr (x, rec)" by blast
  then have "x = o'" "create_maximum_activation_for get_dims x (int n) (ds x) = Inr rec"
    by (auto simp: err_bind_Inr_iff)
  then show "x \<in> set outs \<and> record_ok n [] rec"
    using create_for_record_ok[of get_dims x n "ds x" rec] sup o'(1) by auto
qed

lemma run_inv:
  assumes ok: "argsort_ok argsort"
    and init: "MaximumActivationSearch_init get_dims outs ds (int n) = Inr s0"
    and sup: "\<forall>x\<in>set outs. dense_or_spatial_dims (case ds x of None \<Rightarrow> get_dims x | Some d \<Rightarrow> d)"
    and run: "process_batches argsort bs s0 = Inr s"
  shows "streamindex s = sum_list (map (\<lambda>b. int (shape (b (hd outs)) ! 0)) bs)"
    "\<And>x rec. (x, rec) \<in> set (maximum_activations s)
       \<Longrightarrow> x \<in> set outs \<and> record_ok n (history (hd outs) x 0 bs) rec"
proof -
  note i = init_inv[OF init sup]
  have inv0: "\<And>x rec. (x, rec) \<in> set (maximum_activations s0) \<Longrightarrow> record_ok n [] rec"
    using i(5) by blast
  have "outputs s = outputs s0 \<and> topn s = topn s0 \<and>
    streamindex s = streamindex s0 + sum_list (map (\<lambda>b. int (shape (b (hd (outputs s0))) ! 0)) bs) \<and>
    (\<forall>x rec. (x, rec) \<in> set (maximum_activations s) \<longrightarrow>
       x \<in> fst ` set (maximum_activations s0) \<and>
       record_ok n ([] @ history (hd (outputs s0)) x (streamindex s0) bs) rec)"
    by (rule process_batches_inv[OF ok run i(3), where H = "\<lambda>_. []"]) (rule inv0)
  then have r: "streamindex s = streamindex s0 + sum_list (map (\<lambda>b. int (shape (b (hd (outputs s0))) ! 0)) bs)"
    "\<And>x rec. (x, rec) \<in> set (maximum_activations s) \<Longrightarrow>
       x \<in> fst ` set (maximum_activations s0) \<and>
       record_ok n ([] @ history (hd (outputs s0)) x (streamindex s0) bs) rec"
    by blast+
  show "streamindex s = sum_list (map (\<lambda>b. int (shape (b (hd outs)) ! 0)) bs)"
    using r(1) by (simp add: i(1,4))
  fix x rec assume m: "(x, rec) \<in> set (maximum_activations s)"
  from r(2)[OF m] have "x \<in> fst ` set (maximum_activations s0)"
    "record_ok n (history (hd outs) x 0 bs) rec"
    by (simp_all add: i(1,4))
  then show "x \<in> set outs \<and> record_ok n (history (hd outs) x 0 bs) rec"
    using i(5) by auto
qed

lemma process_batch_single:
  assumes "maximum_activations s = [(x, rec)]" "outputs s = x # xs"
    and "create_maximum_activation_update argsort (b x) rec (streamindex s) (topn s) = Inr upd"
    and "shape (b x) = bb # sh"
  shows "process_batch argsort b s = Inr (s\<lparr>maximum_activations := [(x, apply_updates rec upd)],
           streamindex := streamindex s + int bb\<rparr>)"
  using assms by (simp add: process_batch_def)

lemma init_single_dense:
  assumes "representable [int n, int u]"
  shows "MaximumActivationSearch_init (\<lambda>_. Integral (int u)) [x] (\<lambda>_. None) (int n) =
     Inr \<lparr>outputs = [x], topn = int n, streamindex = 0,
          maximum_activations = [(x, \<lparr>dims = [int u], quantity = Tensor [n, u] (\<lambda>_. 0),
             index = Tensor [n, u] (\<lambda>_. 0), snapshot = None\<rparr>)]\<rparr>"
  using assms
  by (simp add: MaximumActivationSearch_init_def create_maximum_activation_for_def zeros_def
      ordered_dict_def)

lemma history_bounds:
  "(si, out) \<in> set (history o1 x s0 bs) \<Longrightarrow>
   \<forall>b\<in>set bs. shape (b x) ! 0 = shape (b o1) ! 0 \<Longrightarrow>
   s0 \<le> si \<and> si + int (shape out ! 0) \<le> s0 + sum_list (map (\<lambda>b. int (shape (b o1) ! 0)) bs)"
proof (induction bs arbitrary: s0)
  case Nil then show ?case by simp
next
  case (Cons b bs)
  have nn: "0 \<le> sum_list (map (\<lambda>b. int (shape (b o1) ! 0)) bs)"
    by (rule sum_list_nonneg) auto
  from Cons.prems(1) consider "si = s0" "out = b x"
    | "(si, out) \<in> set (history o1 x (s0 + int (shape (b o1) ! 0)) bs)" by auto
  then show ?case
  proof cases
    case 1
    then show ?thesis using Cons.prems(2) nn by simp
  next
    case 2
    from Cons.IH[OF 2] Cons.prems(2) show ?thesis by simp
  qed
qed

lemma single_dense_run:
  assumes d: "shape (b x) = [bb, u]" and rp: "representable [int n, int u]"
  shows "\<exists>s0 s rec upd.
     MaximumActivationSearch_init (\<lambda>_. Integral (int u)) [x] (\<lambda>_. None) (int n) = Inr s0 \<and>
     maximum_activations s0 = [(x, \<lparr>dims = [int u], quantity = Tensor [n, u] (\<lambda>_. 0),
             index = Tensor [n, u] (\<lambda>_. 0), snapshot = None\<rparr>)] \<and>
     streamindex s0 = 0 \<and>
     create_maximum_activation_update stable_argsort (b x)
        \<lparr>dims = [int u], quantity = Tensor [n, u] (\<lambda>_. 0),
             index = Tensor [n, u] (\<lambda>_. 0), snapshot = None\<rparr> 0 (int n) = Inr upd \<and>
     rec = apply_updates \<lparr>dims = [int u], quantity = Tensor [n, u] (\<lambda>_. 0),
             index = Tensor [n, u] (\<lambda>_. 0), snapshot = None\<rparr> upd \<and>
     process_batches stable_argsort [b] s0 = Inr s \<and>
     maximum_activations s = [(x, rec)] \<and> streamindex s = int bb \<and>
     shape (quantity rec) = [n, u]"
proof -
  let ?zrec = "\<lparr>dims = [int u], quantity = Tensor [n, u] (\<lambda>_. 0::real),
             index = Tensor [n, u] (\<lambda>_. 0::int), snapshot = None\<rparr>"
  let ?ini = "\<lparr>outputs = [x], topn = int n, streamindex = 0,
          maximum_activations = [(x, ?zrec)]\<rparr>"
  have i: "MaximumActivationSearch_init (\<lambda>_. Integral (int u)) [x] (\<lambda>_. None) (int n) = Inr ?ini"
    by (rule init_single_dense[OF rp])
  have dr: "dense_record ?zrec n u" by (simp add: dense_record_def)
  obtain upd where upd: "create_maximum_activation_update stable_argsort (b x) ?zrec 0 (int n) = Inr upd"
     "shape (newmax upd) = [n, u]"
    using update_dense[OF stable_argsort_ok dr d, of 0] by blast
  let ?fin = "?ini\<lparr>maximum_activations := [(x, apply_updates ?zrec upd)],
           streamindex := streamindex ?ini + int bb\<rparr>"
  have "process_batch stable_argsort b ?ini = Inr ?fin"
    by (rule process_batch_single[where xs = "[]" and sh = "[u]"]) (simp_all add: upd(1) d)
  then have "process_batches stable_argsort [b] ?ini = Inr ?fin" by simp
  moreover have "shape (quantity (apply_updates ?zrec upd)) = [n, u]"
    by (simp add: apply_updates_def upd(2))
  ultimately show ?thesis using i upd(1) by (intro exI[of _ ?ini] exI[of _ ?fin] exI[of _ upd] exI) simp
qed

subsection \<open>C1: index-quantity correspondence\<close>

text \<open>
  Claim C1 says that re-fetching the activation at the recorded coordinate reproduces the
  recorded quantity for every retained slot. The record starts with zero quantities at the
  coordinate 0, and such an entry stays until an activation displaces it: from the all-zero
  record with \<open>N = 2\<close>, the batch \<open>[[5]]\<close> at stream position 0 gives the quantities
  \<open>[[5], [0]]\<close> and the indices \<open>[[0], [0]]\<close>; slot 1 records the quantity 0 for example 0,
  whose activation is 5.
\<close>

theorem sentinel_slot_not_refetchable:
  "\<exists>rec0 r.
     create_maximum_activation_for (\<lambda>_. Integral 1) () 2 (Some (Integral 1)) = Inr rec0 \<and>
     create_maximum_activation_update stable_argsort (array2 [[5]]) rec0 0 2 = Inr r \<and>
     tolist2 (newmax r) = [[5], [0]] \<and> tolist2 (newind r) = [[0], [0]] \<and>
     item (array2 [[5::real]]) [0, 0] = 5 \<and>
     \<not> dense_source [(0, array2 [[5]])] 0 (item (newmax r) [1, 0]) (item (newind r) [1, 0])"
proof -
  define rec0 where "rec0 = \<lparr>dims = [1::int], quantity = Tensor [2, 1] (\<lambda>_. 0::real),
     index = Tensor [2, 1] (\<lambda>_. 0::int), snapshot = None\<rparr>"
  have rp: "representable [int 2, int 1]" by (simp add: representable_def maxint_def)
  have c: "create_maximum_activation_for (\<lambda>_. Integral 1) () 2 (Some (Integral 1)) = Inr rec0"
    using create_for_dense[OF rp, of "\<lambda>_. Integral 1" "()"] by (simp add: rec0_def)
  have d0: "dense_record rec0 2 1" by (simp add: rec0_def dense_record_def)
  have q0: "column (quantity rec0) 0 = [0, 0]" "column (index rec0) 0 = [0, 0]"
    by (simp_all add: rec0_def column_def upt_small)
  have o1: "shape (array2 [[5::real]]) = [1, 1]" "column (array2 [[5::real]]) 0 = [5]"
    by (simp_all add: array2_def column_def)
  have e1: "ranking stable_argsort 2 [0, 0, 5] = [2, 0]"
    by (simp add: ranking_def stable_argsort_def upt_small)
  obtain r where r: "create_maximum_activation_update stable_argsort (array2 [[5]]) rec0 0 2 = Inr r"
     "shape (newmax r) = [2, 1]" "shape (newind r) = [2, 1]"
     "column (newmax r) 0 = [5, 0]" "column (newind r) 0 = [0, 0]"
    using update_dense[OF stable_argsort_ok d0 o1(1), of 0]
    by (auto simp: q0 o1(2) e1)
  have t: "tolist2 (newmax r) = [[5], [0]]" "tolist2 (newind r) = [[0], [0]]"
    using r by (simp_all add: tolist2_column1)
  have "item (newmax r) [1, 0] = column (newmax r) 0 ! 1" "item (newind r) [1, 0] = column (newind r) 0 ! 1"
    by (simp_all add: nth_column r(2,3))
  then have v: "item (newmax r) [1, 0] = 0" "item (newind r) [1, 0] = 0"
    by (simp_all add: r(4,5))
  have n: "\<not> dense_source [(0, array2 [[5]])] 0 (item (newmax r) [1, 0]) (item (newind r) [1, 0])"
    unfolding v by (simp add: dense_source_def array2_def)
  have "item (array2 [[5::real]]) [0, 0] = 5" by (simp add: array2_def)
  then show ?thesis using c r(1) t n by blast
qed

text \<open>
  Claim C1 as amended. For every monitored output with dense or spatial dimensions, after
  any number of batches processed by the controller from its construction, every retained
  slot \<open>(i, u)\<close> is traceable: either it is a zero entry of the initial record (quantity 0,
  coordinate 0) that no activation has displaced, or the activation re-fetched at the
  recorded coordinate from the batches seen so far is \<open>quantities[i, u]\<close>: for dense
  outputs the activation of the recorded example at unit \<open>u\<close>, for spatial outputs the
  value at the recorded (row, col) of the recorded example's unit-\<open>u\<close> feature map, which is
  the maximum of that map.
\<close>

theorem index_quantity_correspondence:
  assumes "argsort_ok argsort"
    and "MaximumActivationSearch_init get_dims outs ds (int n) = Inr s0"
    and "\<forall>x\<in>set outs. dense_or_spatial_dims (case ds x of None \<Rightarrow> get_dims x | Some d \<Rightarrow> d)"
    and "process_batches argsort bs s0 = Inr s"
    and "(x, rec) \<in> set (maximum_activations s)"
    and "i < shape (quantity rec) ! 0" and "j < shape (quantity rec) ! 1"
  shows "slot_traceable (history (hd outs) x 0 bs) rec i j"
proof -
  have "record_ok n (history (hd outs) x 0 bs) rec"
    using run_inv(2)[OF assms(1-4) assms(5)] by simp
  then show ?thesis
    using assms(6,7) by (auto simp: record_ok_def dense_record_def spatial_record_def)
qed

theorem index_quantity_correspondence_witness:
  "\<exists>s0 s rec.
     MaximumActivationSearch_init (\<lambda>_. Integral 1) [()] (\<lambda>_. None) 2 = Inr s0 \<and>
     process_batches stable_argsort [\<lambda>_. array2 [[5], [1]]] s0 = Inr s \<and>
     maximum_activations s = [((), rec)] \<and> shape (quantity rec) = [2, 1] \<and>
     slot_traceable (history () () 0 [\<lambda>_. array2 [[5], [1]]]) rec 0 0 \<and>
     slot_traceable (history () () 0 [\<lambda>_. array2 [[5], [1]]]) rec 1 0"
proof -
  let ?b = "\<lambda>_::unit. array2 [[5], [1::real]]"
  have sh: "shape (?b ()) = [2, 1]" by (simp add: array2_def)
  have rp: "representable [int 2, int 1]" by (simp add: representable_def maxint_def)
  from single_dense_run[of ?b "()" 2 1 2, OF sh rp]
  obtain s0 s rec where r:
     "MaximumActivationSearch_init (\<lambda>_. Integral 1) [()] (\<lambda>_. None) 2 = Inr s0"
     "process_batches stable_argsort [?b] s0 = Inr s"
     "maximum_activations s = [((), rec)]" "shape (quantity rec) = [2, 1]"
    by auto
  have sup: "\<forall>x\<in>set [()]. dense_or_spatial_dims
      (case (\<lambda>_. None) x of None \<Rightarrow> (\<lambda>_. Integral 1) x | Some d \<Rightarrow> d)"
    by (simp add: dense_or_spatial_dims_def)
  have m: "((), rec) \<in> set (maximum_activations s)" by (simp add: r(3))
  have "slot_traceable (history (hd [()]) () 0 [?b]) rec 0 0"
    by (rule index_quantity_correspondence[OF stable_argsort_ok _ sup r(2) m, where n = 2])
       (simp_all add: r)
  moreover have "slot_traceable (history (hd [()]) () 0 [?b]) rec 1 0"
    by (rule index_quantity_correspondence[OF stable_argsort_ok _ sup r(2) m, where n = 2])
       (simp_all add: r)
  ultimately show ?thesis using r by auto
qed

subsection \<open>C2: sortedness\<close>

text \<open>
  Claim C2. After any update that returns (from any values of a record with \<open>N\<close> slots, dense
  or spatial, and for any batch), every column \<open>quantities[:, u]\<close> of the new quantities is
  non-increasing from slot \<open>0\<close> to slot \<open>N - 1\<close>.
\<close>

theorem sortedness:
  assumes "argsort_ok argsort"
    and "dense_record rec n u \<or> spatial_record rec n u h w"
    and "create_maximum_activation_update argsort out rec si (int n) = Inr r"
    and "j < u"
  shows "sorted_wrt (\<ge>) (column (newmax r) j)"
  using assms(2)
proof
  assume rec: "dense_record rec n u"
  obtain b where "shape out = [b, u]"
    using dense_update_shape[OF rec assms(3)] by blast
  from update_dense[OF assms(1) rec this, of si] assms(3,4)
  show ?thesis by (auto simp: ranking_sorted[OF assms(1)])
next
  assume rec: "spatial_record rec n u h w"
  obtain b where "shape out = [b, u, h, w]" "0 < h * w" "0 < b" "0 < u"
    using spatial_update_shape[OF rec assms(3)] by blast
  from update_spatial[OF assms(1) rec this, of si] assms(3,4)
  show ?thesis by (auto simp: ranking_sorted[OF assms(1)])
qed

theorem sortedness_witness:
  "\<exists>r. create_maximum_activation_update stable_argsort (array2 [[1], [5], [3]])
          \<lparr>dims = [1], quantity = array2 [[4], [2]], index = array2 [[0], [1]],
           snapshot = None\<rparr> 2 2 = Inr r \<and>
        sorted_wrt (\<ge>) (column (newmax r) 0)"
proof -
  let ?rec = "\<lparr>dims = [1], quantity = array2 [[4], [2::real]], index = array2 [[0], [1::int]],
           snapshot = None\<rparr>"
  have rec: "dense_record ?rec 2 1"
    by (simp add: dense_record_def array2_def)
  have out: "shape (array2 [[1], [5], [3::real]]) = [3, 1]"
    by (simp add: array2_def)
  obtain r where r: "create_maximum_activation_update stable_argsort (array2 [[1], [5], [3]])
      ?rec 2 (int 2) = Inr r"
    using update_dense[OF stable_argsort_ok rec out, of 2] by auto
  have "sorted_wrt (\<ge>) (column (newmax r) 0)"
    by (rule sortedness[OF stable_argsort_ok disjI1[OF rec] r]) simp
  then show ?thesis using r by auto
qed

subsection \<open>C3: size conservation\<close>

text \<open>
  Claim C3 says that the update emits \<open>N\<close> slots per unit for every batch size. For a
  spatial output the candidates are computed with \<^verbatim>\<open>output.flatten(ndim=3)\<close> and
  \<^verbatim>\<open>argmax(axis=2)\<close>, and neither accepts an empty tensor: a spatial batch of no example
  (batch size 0) is refused by the reshape inside \<^verbatim>\<open>flatten\<close>, and so is an output of no
  unit; feature maps of no position are refused by \<^verbatim>\<open>argmax\<close>. On these three batches
  the update of a spatial record with one slot returns no new value.
\<close>

theorem empty_spatial_batch_rejected:
  "create_maximum_activation_update numpy_argsort (Tensor [0, 1, 2, 2] (\<lambda>_. 0))
      \<lparr>dims = [1, 2, 2], quantity = Tensor [1, 1] (\<lambda>_. 0), index = Tensor [1, 1, 3] (\<lambda>_. 0),
       snapshot = Some (Tensor [1, 1, 2, 2] (\<lambda>_. 0))\<rparr> 0 1 = Inl ValueError \<and>
   create_maximum_activation_update numpy_argsort (Tensor [1, 0, 2, 2] (\<lambda>_. 0))
      \<lparr>dims = [0, 2, 2], quantity = Tensor [1, 0] (\<lambda>_. 0), index = Tensor [1, 0, 3] (\<lambda>_. 0),
       snapshot = Some (Tensor [1, 0, 2, 2] (\<lambda>_. 0))\<rparr> 0 1 = Inl ValueError \<and>
   create_maximum_activation_update numpy_argsort (Tensor [1, 1, 0, 2] (\<lambda>_. 0))
      \<lparr>dims = [1, 0, 2], quantity = Tensor [1, 1] (\<lambda>_. 0), index = Tensor [1, 1, 3] (\<lambda>_. 0),
       snapshot = Some (Tensor [1, 1, 0, 2] (\<lambda>_. 0))\<rparr> 0 1 = Inl ValueError"
  by (simp add: create_maximum_activation_update_def counters_def candidates_def flatten_def
      argmax_def tile_def shape_padright_def add_scalar_def arange_def ndim_def
      numeral_2_eq_2 numeral_3_eq_3)

text \<open>
  Claim C3 as amended. For every batch size \<open>b\<close> of a dense output, and for every batch
  size \<open>b \<ge> 1\<close> of a spatial output with at least one unit and feature maps that are not
  empty (smaller than, equal to or larger than \<open>N\<close>), the update of a record with \<open>N\<close> slots
  returns new values, and they have exactly \<open>N\<close> slots per unit: the new quantities have
  shape \<open>(N, units)\<close> and the new indices have shape \<open>(N, units)\<close> for a dense output and
  \<open>(N, units, 3)\<close> for a spatial output.
\<close>

theorem size_conservation:
  "argsort_ok argsort \<Longrightarrow>
   (dense_record rec n u \<and> shape out = [b, u] \<longrightarrow>
      (\<exists>r. create_maximum_activation_update argsort out rec si (int n) = Inr r \<and>
           shape (newmax r) = [n, u] \<and> shape (newind r) = [n, u])) \<and>
   (spatial_record rec' n u h w \<and> shape out' = [b, u, h, w] \<and> 0 < b \<and> 0 < u \<and> 0 < h * w \<longrightarrow>
      (\<exists>r. create_maximum_activation_update argsort out' rec' si (int n) = Inr r \<and>
           shape (newmax r) = [n, u] \<and> shape (newind r) = [n, u, 3]))"
proof (intro conjI impI)
  assume ok: "argsort_ok argsort" and "dense_record rec n u \<and> shape out = [b, u]"
  then show "\<exists>r. create_maximum_activation_update argsort out rec si (int n) = Inr r \<and>
           shape (newmax r) = [n, u] \<and> shape (newind r) = [n, u]"
    using update_dense[of argsort rec n u out b si] by blast
next
  assume ok: "argsort_ok argsort"
    and "spatial_record rec' n u h w \<and> shape out' = [b, u, h, w] \<and> 0 < b \<and> 0 < u \<and> 0 < h * w"
  then show "\<exists>r. create_maximum_activation_update argsort out' rec' si (int n) = Inr r \<and>
           shape (newmax r) = [n, u] \<and> shape (newind r) = [n, u, 3]"
    using update_spatial[of argsort rec' n u h w out' b si] by blast
qed

theorem size_conservation_witness:
  "argsort_ok numpy_argsort \<and>
   dense_record \<lparr>dims = [1], quantity = Tensor [5, 1] (\<lambda>_. 0), index = Tensor [5, 1] (\<lambda>_. 0),
       snapshot = None\<rparr> 5 1 \<and>
   shape (array2 [[1], [2], [3::real]]) = [3, 1] \<and>
   (\<exists>r. create_maximum_activation_update numpy_argsort (array2 [[1], [2], [3]])
          \<lparr>dims = [1], quantity = Tensor [5, 1] (\<lambda>_. 0), index = Tensor [5, 1] (\<lambda>_. 0),
           snapshot = None\<rparr> 0 5 = Inr r \<and>
        shape (newmax r) = [5, 1] \<and> shape (newind r) = [5, 1]) \<and>
   spatial_record \<lparr>dims = [1, 2, 2], quantity = Tensor [1, 1] (\<lambda>_. 0),
       index = Tensor [1, 1, 3] (\<lambda>_. 0), snapshot = Some (Tensor [1, 1, 2, 2] (\<lambda>_. 0))\<rparr> 1 1 2 2 \<and>
   shape (array4 [[[[1, 9], [2, 3::real]]]]) = [1, 1, 2, 2] \<and>
   (\<exists>r. create_maximum_activation_update numpy_argsort (array4 [[[[1, 9], [2, 3]]]])
          \<lparr>dims = [1, 2, 2], quantity = Tensor [1, 1] (\<lambda>_. 0),
           index = Tensor [1, 1, 3] (\<lambda>_. 0), snapshot = Some (Tensor [1, 1, 2, 2] (\<lambda>_. 0))\<rparr> 0 1
          = Inr r \<and>
        shape (newmax r) = [1, 1] \<and> shape (newind r) = [1, 1, 3])"
  using size_conservation[OF numpy_argsort_ok,
      where rec = "\<lparr>dims = [1], quantity = Tensor [5, 1] (\<lambda>_. 0), index = Tensor [5, 1] (\<lambda>_. 0),
           snapshot = None\<rparr>" and n = 5 and u = 1 and out = "array2 [[1], [2], [3]]"
        and b = 3 and si = 0]
    size_conservation[OF numpy_argsort_ok,
      where rec' = "\<lparr>dims = [1, 2, 2], quantity = Tensor [1, 1] (\<lambda>_. 0),
           index = Tensor [1, 1, 3] (\<lambda>_. 0), snapshot = Some (Tensor [1, 1, 2, 2] (\<lambda>_. 0))\<rparr>"
        and n = 1 and u = 1 and h = 2 and w = 2 and out' = "array4 [[[[1, 9], [2, 3]]]]"
        and b = 1 and si = 0]
  by (simp add: numpy_argsort_ok dense_record_def spatial_record_def array2_def array4_def)

subsection \<open>C4: scenario A\<close>

text \<open>
  Claim C4 (dense, \<open>N = 2\<close>, one unit). From the all-zero record and stream position 0, the
  update with the batch \<open>[[5], [1]]\<close> gives the quantities \<open>[[5], [1]]\<close> and the indices
  \<open>[[0], [1]]\<close>; then, at stream position 2, the update with the batch \<open>[[3]]\<close> gives the
  quantities \<open>[[5], [3]]\<close> and the indices \<open>[[0], [2]]\<close>: the entry 1 is displaced. This
  holds whatever sort meets the contract of \<open>argsort\<close>.
\<close>

theorem scenario_A:
  assumes ok: "argsort_ok argsort"
  shows "\<exists>rec0 r1 r2.
     create_maximum_activation_for get_dims x 2 (Some (Integral 1)) = Inr rec0 \<and>
     tolist2 (quantity rec0) = [[0], [0]] \<and> tolist2 (index rec0) = [[0], [0]] \<and>
     create_maximum_activation_update argsort (array2 [[5], [1]]) rec0 0 2 = Inr r1 \<and>
     tolist2 (newmax r1) = [[5], [1]] \<and> tolist2 (newind r1) = [[0], [1]] \<and>
     create_maximum_activation_update argsort (array2 [[3]]) (apply_updates rec0 r1) 2 2 = Inr r2 \<and>
     tolist2 (newmax r2) = [[5], [3]] \<and> tolist2 (newind r2) = [[0], [2]]"
proof -
  define rec0 where "rec0 = \<lparr>dims = [1::int], quantity = Tensor [2, 1] (\<lambda>_. 0::real),
     index = Tensor [2, 1] (\<lambda>_. 0::int), snapshot = None\<rparr>"
  have rp: "representable [int 2, int 1]" by (simp add: representable_def maxint_def)
  have c: "create_maximum_activation_for get_dims x 2 (Some (Integral 1)) = Inr rec0"
    using create_for_dense[OF rp, of get_dims x] by (simp add: rec0_def)
  have z: "tolist2 (quantity rec0) = [[0], [0]]" "tolist2 (index rec0) = [[0], [0]]"
    by (simp_all add: rec0_def tolist2_def upt_small)
  have d0: "dense_record rec0 2 1" by (simp add: rec0_def dense_record_def)
  have q0: "column (quantity rec0) 0 = [0, 0]" "column (index rec0) 0 = [0, 0]"
    by (simp_all add: rec0_def column_def upt_small)
  have o1: "shape (array2 [[5], [1::real]]) = [2, 1]" "column (array2 [[5], [1::real]]) 0 = [5, 1]"
    by (simp_all add: array2_def column_def upt_small)
  obtain r1 where r1: "create_maximum_activation_update argsort (array2 [[5], [1]]) rec0 0 2 = Inr r1"
     "shape (newmax r1) = [2, 1]" "shape (newind r1) = [2, 1]" "newsnap r1 = None"
     "column (newmax r1) 0 = [5, 1]" "column (newind r1) 0 = [0, 1]"
    using update_dense[OF ok d0 o1(1), of 0]
    by (auto simp: q0 o1(2) rank_A1[OF ok] upt_small)
  define rec1 where "rec1 = apply_updates rec0 r1"
  have d1: "dense_record rec1 2 1"
    by (simp add: rec1_def apply_updates_def dense_record_def r1 rec0_def)
  have q1: "column (quantity rec1) 0 = [5, 1]" "column (index rec1) 0 = [0, 1]"
    by (simp_all add: rec1_def apply_updates_def r1)
  have o2: "shape (array2 [[3::real]]) = [1, 1]" "column (array2 [[3::real]]) 0 = [3]"
    by (simp_all add: array2_def column_def)
  obtain r2 where r2: "create_maximum_activation_update argsort (array2 [[3]]) rec1 2 2 = Inr r2"
     "shape (newmax r2) = [2, 1]" "shape (newind r2) = [2, 1]"
     "column (newmax r2) 0 = [5, 3]" "column (newind r2) 0 = [0, 2]"
    using update_dense[OF ok d1 o2(1), of 2]
    by (auto simp: q1 o2(2) rank_A2[OF ok])
  show ?thesis
    using c z r1 r2 unfolding rec1_def
    by (auto simp: tolist2_column1)
qed

theorem scenario_A_witness:
  "\<exists>rec0 r1 r2.
     create_maximum_activation_for (\<lambda>_. Integral 1) () 2 (Some (Integral 1)) = Inr rec0 \<and>
     tolist2 (quantity rec0) = [[0], [0]] \<and> tolist2 (index rec0) = [[0], [0]] \<and>
     create_maximum_activation_update stable_argsort (array2 [[5], [1]]) rec0 0 2 = Inr r1 \<and>
     tolist2 (newmax r1) = [[5], [1]] \<and> tolist2 (newind r1) = [[0], [1]] \<and>
     create_maximum_activation_update stable_argsort (array2 [[3]]) (apply_updates rec0 r1) 2 2
       = Inr r2 \<and>
     tolist2 (newmax r2) = [[5], [3]] \<and> tolist2 (newind r2) = [[0], [2]]"
  by (rule scenario_A[OF stable_argsort_ok])

subsection \<open>C5: scenario B\<close>

text \<open>
  Claim C5 (spatial, \<open>N = 1\<close>, one unit, one example). For the 4D batch whose only feature
  map is \<open>[[1, 9], [2, 3]]\<close>, the flattened map is \<open>[1, 9, 2, 3]\<close>, its maximum is 9 at the
  flat position 1, and the update of the all-zero record at stream position 0 records the
  quantity 9 with the index triple (example 0, row 0, column 1), the quotient and remainder
  of the flat position by the map width 2. This holds whatever sort meets the contract of
  \<open>argsort\<close>.
\<close>

theorem scenario_B:
  assumes ok: "argsort_ok argsort"
  shows "\<exists>rec0 r.
     create_maximum_activation_for get_dims x 1 (Some (DimsTuple [1, 2, 2])) = Inr rec0 \<and>
     feature_map (array4 [[[[1, 9], [2, 3]]]]) 0 0 = [1, 9, 2, 3] \<and>
     argmax_list [1, 9, 2, 3] = 1 \<and> max_list [1, 9, 2, 3] = 9 \<and>
     create_maximum_activation_update argsort (array4 [[[[1, 9], [2, 3]]]]) rec0 0 1 = Inr r \<and>
     tolist2 (newmax r) = [[9]] \<and> tolist3 (newind r) = [[[0, 0, 1]]]"
proof -
  define rec0 where "rec0 = \<lparr>dims = [1::int, 2, 2], quantity = Tensor [1, 1] (\<lambda>_. 0::real),
     index = Tensor [1, 1, 3] (\<lambda>_. 0::int), snapshot = Some (Tensor [1, 1, 2, 2] (\<lambda>_. 0::real))\<rparr>"
  let ?out = "array4 [[[[1, 9], [2, 3::real]]]]"
  have c: "create_maximum_activation_for get_dims x 1 (Some (DimsTuple [1, 2, 2])) = Inr rec0"
    using create_for_spatial[of 1 1 2 2 get_dims x]
    by (simp add: rec0_def representable_def maxint_def)
  have d0: "spatial_record rec0 1 1 2 2" by (simp add: rec0_def spatial_record_def)
  have q0: "column (quantity rec0) 0 = [0]" "\<And>k. column3 (index rec0) 0 k = [0]"
    by (simp_all add: rec0_def column_def column3_def)
  have o: "shape ?out = [1, 1, 2, 2]"
    by (simp add: array4_def)
  have sh: "shape ?out ! 2 = 2" "shape ?out ! 3 = 2"
    by (simp_all add: array4_def numeral_2_eq_2 numeral_3_eq_3)
  have fm: "feature_map ?out 0 0 = [1, 9, 2, 3]"
    unfolding feature_map_def sh by (simp add: upt_small array4_def)
  have am: "argmax_list [1, 9, 2, 3::real] = 1" "max_list [1, 9, 2, 3::real] = 9"
    by simp_all
  have loc: "location ?out 0 0 0 0 = 0" "location ?out 0 0 1 0 = 0" "location ?out 0 0 2 0 = 1"
    by (simp_all add: location_def fm am sh)
  let ?cv = "column (quantity rec0) 0 @ map (\<lambda>i. max_list (feature_map ?out i 0)) [0..<1]"
  obtain r where r: "create_maximum_activation_update argsort ?out rec0 0 (int 1) = Inr r"
     "shape (newmax r) = [1, 1]" "shape (newind r) = [1, 1, 3]"
     and cols: "\<And>j. j < 1 \<Longrightarrow> column (newmax r) j =
          map ((!) (column (quantity rec0) j @ map (\<lambda>i. max_list (feature_map ?out i j)) [0..<1]))
            (ranking argsort 1
               (column (quantity rec0) j @ map (\<lambda>i. max_list (feature_map ?out i j)) [0..<1])) \<and>
        (\<forall>k<3. column3 (newind r) j k =
          map ((!) (column3 (index rec0) j k @ map (location ?out 0 j k) [0..<1]))
            (ranking argsort 1
               (column (quantity rec0) j @ map (\<lambda>i. max_list (feature_map ?out i j)) [0..<1])))"
    using update_spatial[OF ok d0 o, of 0] by force
  note rk = rank_B[OF ok, unfolded One_nat_def]
  have cm: "column (newmax r) 0 = [9]"
    using cols[of 0] by (simp add: q0 fm am rk)
  have ci: "column3 (newind r) 0 0 = [0]" "column3 (newind r) 0 1 = [0]" "column3 (newind r) 0 2 = [1]"
    using cols[of 0] loc by (simp_all add: q0 fm am rk)
  note r = r(1)[simplified] r(2,3) cm ci
  show ?thesis
    using c fm am r
    by (auto simp: tolist2_column1 tolist3_column3_1)
qed

theorem scenario_B_witness:
  "\<exists>rec0 r.
     create_maximum_activation_for (\<lambda>_. Integral 1) () 1 (Some (DimsTuple [1, 2, 2])) = Inr rec0 \<and>
     feature_map (array4 [[[[1, 9], [2, 3]]]]) 0 0 = [1, 9, 2, 3] \<and>
     argmax_list [1, 9, 2, 3] = 1 \<and> max_list [1, 9, 2, 3] = 9 \<and>
     create_maximum_activation_update stable_argsort (array4 [[[[1, 9], [2, 3]]]]) rec0 0 1
       = Inr r \<and>
     tolist2 (newmax r) = [[9]] \<and> tolist3 (newind r) = [[[0, 0, 1]]]"
  by (rule scenario_B[OF stable_argsort_ok])

subsection \<open>C6: stream position and example coordinates\<close>

text \<open>
  Claim C6 says that every recorded example coordinate lies in \<open>[0, sum)\<close> and is the stream
  position of the example that produced the slot. The zero entries of the initial record
  carry the coordinate 0 without any example: the freshly constructed controller records
  the coordinate 0 while the stream position is 0, and after the batch \<open>[[-1]]\<close> (with
  \<open>N = 1\<close>) the record still holds the quantity 0 at the coordinate 0, although the
  activation of example 0 is \<open>-1\<close>.
\<close>

theorem sentinel_coordinate_without_example:
  "\<exists>s0 s rec0 rec.
     MaximumActivationSearch_init (\<lambda>_. Integral 1) [()] (\<lambda>_. None) 1 = Inr s0 \<and>
     process_batches stable_argsort [] s0 = Inr s0 \<and> streamindex s0 = 0 \<and>
     maximum_activations s0 = [((), rec0)] \<and> tolist2 (index rec0) = [[0]] \<and>
     process_batches stable_argsort [\<lambda>_. array2 [[-1]]] s0 = Inr s \<and> streamindex s = 1 \<and>
     maximum_activations s = [((), rec)] \<and>
     tolist2 (quantity rec) = [[0]] \<and> tolist2 (index rec) = [[0]] \<and>
     item (array2 [[-1::real]]) [0, 0] = -1 \<and>
     \<not> dense_source (history () () 0 [\<lambda>_. array2 [[-1]]]) 0 0 0"
proof -
  let ?b = "\<lambda>_::unit. array2 [[-1::real]]"
  let ?z = "\<lparr>dims = [1::int], quantity = Tensor [1, 1] (\<lambda>_. 0::real),
             index = Tensor [1, 1] (\<lambda>_. 0::int), snapshot = None\<rparr>"
  have sh: "shape (?b ()) = [1, 1]" "column (?b ()) 0 = [-1]"
    by (simp_all add: array2_def column_def)
  have rp: "representable [int 1, int 1]" by (simp add: representable_def maxint_def)
  from single_dense_run[of ?b "()" 1 1 1, OF sh(1) rp]
  obtain s0 s rec upd where r:
     "MaximumActivationSearch_init (\<lambda>_. Integral 1) [()] (\<lambda>_. None) 1 = Inr s0"
     "maximum_activations s0 = [((), ?z)]" "streamindex s0 = 0"
     "create_maximum_activation_update stable_argsort (?b ()) ?z 0 1 = Inr upd"
     "rec = apply_updates ?z upd"
     "process_batches stable_argsort [?b] s0 = Inr s"
     "maximum_activations s = [((), rec)]" "streamindex s = 1"
    by auto
  have d0: "dense_record ?z 1 1" by (simp add: dense_record_def)
  have e1: "ranking stable_argsort (Suc 0) [0, - 1] = [0]"
    by (simp add: ranking_def stable_argsort_def upt_small)
  from update_dense[OF stable_argsort_ok d0 sh(1), of 0] r(4)
  have u0: "shape (newmax upd) = [1, 1]" "shape (newind upd) = [1, 1]"
     "column (newmax upd) 0 = map ((!) (column (quantity ?z) 0 @ column (?b ()) 0))
            (ranking stable_argsort 1 (column (quantity ?z) 0 @ column (?b ()) 0))"
     "column (newind upd) 0 = map ((!) (column (index ?z) 0 @ map (\<lambda>i. int i + 0) [0..<1]))
            (ranking stable_argsort 1 (column (quantity ?z) 0 @ column (?b ()) 0))"
    by force+
  have cz: "column (Tensor [1, 1] (\<lambda>_. 0::real)) 0 = [0]" "column (Tensor [1, 1] (\<lambda>_. 0::int)) 0 = [0]"
    by (simp_all add: column_def)
  have u: "shape (newmax upd) = [1, 1]" "shape (newind upd) = [1, 1]"
     "column (newmax upd) 0 = [0]" "column (newind upd) 0 = [0]"
    using u0 by (simp_all add: sh(2) cz cz[unfolded One_nat_def] e1)
  have t: "tolist2 (quantity rec) = [[0]]" "tolist2 (index rec) = [[0]]"
    using u by (simp_all add: r(5) apply_updates_def tolist2_column1)
  have z: "tolist2 (index ?z) = [[0]]" by (simp add: tolist2_def)
  have n: "\<not> dense_source (history () () 0 [?b]) 0 0 0"
    by (simp add: dense_source_def array2_def)
  have v: "item (array2 [[-1::real]]) [0, 0] = -1" by (simp add: array2_def)
  show ?thesis
    using r(1,2,3,6,7,8) t z n v
    by (intro exI[of _ s0] exI[of _ s] exI[of _ ?z] exI[of _ rec]) simp
qed

text \<open>
  Claim C6 as amended. From a freshly constructed controller (stream position 0) over
  outputs with dense or spatial dimensions, after processing any \<open>k\<close> batches the stream
  position is the sum of the batch sizes of the first output. If moreover all outputs have
  the batch size of the first output in every batch, then every slot is traceable (its
  example coordinate is the stream position at the start of a batch plus the offset in that
  batch of the example that produced it, unless it is a zero entry of the initial record),
  and its example coordinate is at least 0 and lies below the stream position, unless it
  is the coordinate 0 of a zero entry of the initial record.
\<close>

theorem stream_position_accumulation:
  assumes "argsort_ok argsort"
    and "MaximumActivationSearch_init get_dims outs ds (int n) = Inr s0"
    and "\<forall>x\<in>set outs. dense_or_spatial_dims (case ds x of None \<Rightarrow> get_dims x | Some d \<Rightarrow> d)"
    and "process_batches argsort bs s0 = Inr s"
  shows "streamindex s = sum_list (map (\<lambda>b. int (shape (b (hd outs)) ! 0)) bs) \<and>
     ((\<forall>b\<in>set bs. \<forall>x\<in>set outs. shape (b x) ! 0 = shape (b (hd outs)) ! 0) \<longrightarrow>
      (\<forall>x rec i j. (x, rec) \<in> set (maximum_activations s) \<and>
        i < shape (quantity rec) ! 0 \<and> j < shape (quantity rec) ! 1 \<longrightarrow>
        slot_traceable (history (hd outs) x 0 bs) rec i j \<and>
        0 \<le> example_coordinate rec i j \<and>
        (example_coordinate rec i j < streamindex s \<or>
         example_coordinate rec i j = 0 \<and> item (quantity rec) [i, j] = 0)))"
proof (intro conjI allI impI)
  show si: "streamindex s = sum_list (map (\<lambda>b. int (shape (b (hd outs)) ! 0)) bs)"
    by (rule run_inv(1)[OF assms(1-4)])
  fix x rec i j
  assume sm: "\<forall>b\<in>set bs. \<forall>x\<in>set outs. shape (b x) ! 0 = shape (b (hd outs)) ! 0"
  assume h: "(x, rec) \<in> set (maximum_activations s) \<and>
        i < shape (quantity rec) ! 0 \<and> j < shape (quantity rec) ! 1"
  then have m: "(x, rec) \<in> set (maximum_activations s)" by simp
  from run_inv(2)[OF assms(1-4) m] have x: "x \<in> set outs"
    and r: "record_ok n (history (hd outs) x 0 bs) rec" by simp_all
  let ?H = "history (hd outs) x 0 bs"
  show tr: "slot_traceable ?H rec i j"
    using r h by (auto simp: record_ok_def dense_record_def spatial_record_def)
  have same: "\<forall>b\<in>set bs. shape (b x) ! 0 = shape (b (hd outs)) ! 0"
    using sm x by blast
  have bnd: "\<And>si out k. (si, out) \<in> set ?H \<Longrightarrow> k < shape out ! 0 \<Longrightarrow>
      0 \<le> si + int k \<and> si + int k < streamindex s"
  proof -
    fix si out k assume "(si, out) \<in> set ?H" "k < shape out ! 0"
    with history_bounds[OF _ same, of si out 0] show "0 \<le> si + int k \<and> si + int k < streamindex s"
      by (simp add: si)
  qed
  have "0 \<le> example_coordinate rec i j \<and>
        (example_coordinate rec i j < streamindex s \<or>
         example_coordinate rec i j = 0 \<and> item (quantity rec) [i, j] = 0)"
  proof (cases "snapshot rec")
    case None
    with tr have "item (quantity rec) [i, j] = 0 \<and> item (index rec) [i, j] = 0 \<or>
          dense_source ?H j (item (quantity rec) [i, j]) (item (index rec) [i, j])"
      by (simp add: slot_traceable_def)
    then show ?thesis
      using bnd by (auto simp: example_coordinate_def None dense_source_def list_ex_iff)
  next
    case (Some sn)
    with tr have "item (quantity rec) [i, j] = 0 \<and> item (index rec) [i, j, 0] = 0 \<or>
          spatial_source ?H j (item (quantity rec) [i, j]) (item (index rec) [i, j, 0])
            (item (index rec) [i, j, 1]) (item (index rec) [i, j, 2])"
      by (auto simp: slot_traceable_def)
    then show ?thesis
      using bnd by (auto simp: example_coordinate_def Some spatial_source_def list_ex_iff)
  qed
  then show "0 \<le> example_coordinate rec i j"
    "example_coordinate rec i j < streamindex s \<or>
         example_coordinate rec i j = 0 \<and> item (quantity rec) [i, j] = 0"
    by simp_all
qed

theorem stream_position_accumulation_witness:
  "\<exists>s0 s rec.
     MaximumActivationSearch_init (\<lambda>_. Integral 1) [()] (\<lambda>_. None) 2 = Inr s0 \<and>
     process_batches stable_argsort [\<lambda>_. array2 [[5], [1]]] s0 = Inr s \<and>
     maximum_activations s = [((), rec)] \<and> shape (quantity rec) = [2, 1] \<and>
     streamindex s = 2 \<and>
     0 \<le> example_coordinate rec 0 0 \<and> 0 \<le> example_coordinate rec 1 0 \<and>
     (example_coordinate rec 0 0 < 2 \<or>
        example_coordinate rec 0 0 = 0 \<and> item (quantity rec) [0, 0] = 0) \<and>
     (example_coordinate rec 1 0 < 2 \<or>
        example_coordinate rec 1 0 = 0 \<and> item (quantity rec) [1, 0] = 0)"
proof -
  let ?b = "\<lambda>_::unit. array2 [[5], [1::real]]"
  have sh: "shape (?b ()) = [2, 1]" by (simp add: array2_def)
  have rp: "representable [int 2, int 1]" by (simp add: representable_def maxint_def)
  from single_dense_run[of ?b "()" 2 1 2, OF sh rp]
  obtain s0 s rec where r:
     "MaximumActivationSearch_init (\<lambda>_. Integral 1) [()] (\<lambda>_. None) (int 2) = Inr s0"
     "process_batches stable_argsort [?b] s0 = Inr s"
     "maximum_activations s = [((), rec)]" "shape (quantity rec) = [2, 1]"
    by auto
  have sup: "\<forall>x\<in>set [()]. dense_or_spatial_dims
      (case (\<lambda>_. None) x of None \<Rightarrow> (\<lambda>_. Integral 1) x | Some d \<Rightarrow> d)"
    by (simp add: dense_or_spatial_dims_def)
  have same: "\<forall>b\<in>set [?b]. \<forall>x\<in>set [()]. shape (b x) ! 0 = shape (b (hd [()])) ! 0"
    by simp
  note spa0 = stream_position_accumulation[OF stable_argsort_ok r(1) sup r(2)]
  note spa = conjI[OF spa0[THEN conjunct1] mp[OF spa0[THEN conjunct2] same]]
  have si: "streamindex s = 2" using spa by (simp add: sh)
  have a: "\<And>i. i < 2 \<Longrightarrow> 0 \<le> example_coordinate rec i 0 \<and>
        (example_coordinate rec i 0 < 2 \<or>
         example_coordinate rec i 0 = 0 \<and> item (quantity rec) [i, 0] = 0)"
  proof -
    fix i :: nat assume i: "i < 2"
    have "((), rec) \<in> set (maximum_activations s) \<and>
        i < shape (quantity rec) ! 0 \<and> 0 < shape (quantity rec) ! 1"
      using i by (simp add: r(3,4))
    from spa[THEN conjunct2, rule_format, OF this]
    show "0 \<le> example_coordinate rec i 0 \<and>
        (example_coordinate rec i 0 < 2 \<or>
         example_coordinate rec i 0 = 0 \<and> item (quantity rec) [i, 0] = 0)"
      by (simp add: si)
  qed
  note si a
  from this(1) this(2)[of 0] this(2)[of 1] show ?thesis using r by auto
qed

subsection \<open>C7: ties in the ranking\<close>




subsection \<open>C8: re-ranking with an all-zero batch\<close>




subsection \<open>C9: degenerate top-N sizes\<close>

text \<open>
  Claim C9 says that the constructor rejects every top-N size \<open>N \<le> 0\<close>. The constructor
  checks nothing itself: a size fails only where \<^verbatim>\<open>numpy.zeros\<close> refuses the shape of the
  first buffer, and it does not refuse \<open>N = 0\<close>. With \<open>N = 0\<close>, one dense output of 3 units
  and no explicit dimensions, construction returns a controller whose record holds empty
  buffers of shape \<open>(0, 3)\<close>.
\<close>

theorem zero_topn_accepted:
  "MaximumActivationSearch_init (\<lambda>_. Integral 3) [()] (\<lambda>_. None) 0 =
     Inr \<lparr>outputs = [()], topn = 0, streamindex = 0,
          maximum_activations = [((), \<lparr>dims = [3], quantity = Tensor [0, 3] (\<lambda>_. 0),
             index = Tensor [0, 3] (\<lambda>_. 0), snapshot = None\<rparr>)]\<rparr>"
  by (simp add: MaximumActivationSearch_init_def create_maximum_activation_for_def zeros_def
      representable_def maxint_def ordered_dict_def)

text \<open>
  Claim C9 as amended. Constructing the controller with a top-N size \<open>N < 0\<close>, or with an
  \<open>N\<close> that numpy cannot represent as the first dimension of a buffer of 8-byte items
  (\<open>8 * N\<close> beyond \<open>maxint\<close>, which holds of every \<open>N\<close> beyond \<open>maxint\<close>), fails at construction
  time, whatever the outputs and their dimensions, so that no controller, record or update
  exists for such an \<open>N\<close>.
\<close>

theorem degenerate_topn_rejected:
  assumes "n < 0 \<or> maxint < 8 * n"
  shows "\<exists>e. MaximumActivationSearch_init get_dims outs ds n = Inl e"
proof (cases outs)
  case Nil
  then show ?thesis by (simp add: MaximumActivationSearch_init_def)
next
  case (Cons x xs)
  obtain e where "create_maximum_activation_for get_dims x n (ds x) = Inl e"
    using create_for_unrepresentable[OF assms, of get_dims x "ds x"] by blast
  then show ?thesis by (simp add: MaximumActivationSearch_init_def Cons)
qed

theorem degenerate_topn_rejected_witness:
  "MaximumActivationSearch_init (\<lambda>_. Integral 3) [()] (\<lambda>_. None) (-1) = Inl ValueError \<and>
   MaximumActivationSearch_init (\<lambda>_. Integral 3) [()] (\<lambda>_. None) (10 ^ 30) = Inl ValueError"
  using degenerate_topn_rejected[of "-1" "\<lambda>_. Integral 3" "[()]" "\<lambda>_. None"]
    degenerate_topn_rejected[of "10 ^ 30" "\<lambda>_. Integral 3" "[()]" "\<lambda>_. None"]
  by (simp add: MaximumActivationSearch_init_def create_maximum_activation_for_def zeros_def
      representable_def maxint_def)

subsection \<open>C10: dereferencing an argmax\<close>

text \<open>
  Claim C10 says that, on every axis, \<^verbatim>\<open>_apply_index(data, data.argmax(axis), axis)\<close> is
  \<^verbatim>\<open>data.max(axis)\<close>. On the last axis of a 3D tensor, where the update uses it, this is
  \<open>apply_index_argmax_last_axis\<close>. On an earlier axis the source counts the positions of
  each later axis \<open>a\<close> with \<^verbatim>\<open>shape[a - 1]\<close>: for \<open>data = [[1, 2, 3]]\<close> and axis 0 the argmax
  is \<open>[0, 0, 0]\<close>, the count for axis 1 is \<^verbatim>\<open>arange(1)\<close>, and the result is \<open>[1, 1, 1]\<close>,
  not the maximum \<open>[1, 2, 3]\<close>.
\<close>

theorem apply_index_first_axis:
  "\<exists>am t m. argmax (array2 [[1, 2, 3]]) 0 = Inr am \<and>
     apply_index (array2 [[1, 2, 3::real]]) am 0 = Inr t \<and>
     shape t = [3] \<and> map (\<lambda>i. item t [i]) [0..<3] = [1, 1, 1] \<and>
     tmax_axis (array2 [[1, 2, 3]]) 0 = Inr m \<and>
     shape m = [3] \<and> map (\<lambda>i. item m [i]) [0..<3] = [1, 2, 3]"
proof -
  let ?d = "array2 [[1, 2, 3::real]]"
  define am where "am = Tensor [3] (\<lambda>idx. int (argmax_list (lane ?d 0 idx)))"
  have sh: "shape ?d = [1, 3]" by (simp add: array2_def)
  have a: "argmax ?d 0 = Inr am"
    by (simp add: argmax_def ndim_def sh drop_axis_def am_def)
  have amv: "\<And>i. item am [i] = 0"
    by (simp add: am_def lane_def sh)
  define c where "c = Tensor [1::nat] (\<lambda>idx. int (idx ! 0))"
  have ap: "apply_index ?d am 0 = adv_index ?d [am, c]"
    by (simp add: apply_index_def ndim_def sh upt_small axis_count_def am_def c_def)
  have bs: "broadcast_shapes (map shape [am, c]) = Some [3]"
    by (simp add: am_def c_def broadcast2_def)
  have pos: "positions [3] = [[0], [1], [2]]"
    by (simp add: upt_small)
  have bp: "\<And>i. bc_pos [3] [i] = [i]" "\<And>i. bc_pos [1] [i] = [0]"
      "\<And>i. bc_pos [Suc 0] [i] = [0]"
    by (simp_all add: bc_pos_def)
  have sa: "shape am = [3]" "shape c = [1]" by (simp_all add: am_def c_def)
  define t where "t = Tensor [3] (\<lambda>pos. item ?d (map2 (\<lambda>t n. norm_index n (bc_item t pos)) [am, c] (shape ?d)))"
  have r: "adv_index ?d [am, c] = Inr t"
    unfolding adv_index_def bs t_def
    by (simp add: ndim_def sh upt_small bc_item_def sa bp amv index_ok_def c_def)
  have tv: "map (\<lambda>i. item t [i]) [0..<3] = [1, 1, 1]"
    by (simp add: t_def upt_small sh bc_item_def sa bp amv norm_index_def c_def array2_def)
  define m where "m = Tensor [3] (\<lambda>idx. max_list (lane ?d 0 idx))"
  have tm: "tmax_axis ?d 0 = Inr m"
    by (simp add: tmax_axis_def ndim_def sh drop_axis_def m_def)
  have mv: "map (\<lambda>i. item m [i]) [0..<3] = [1, 2, 3]"
    by (simp add: m_def upt_small lane_def sh array2_def)
  have "shape t = [3]" "shape m = [3]" by (simp_all add: t_def m_def)
  then show ?thesis
    using a ap r tv tm mv by (intro exI[of _ am] exI[of _ t] exI[of _ m]) simp
qed

end
